theory Spec2Isabelle
  imports Main "HOL-Library.Multiset"
begin

section \<open>The canonical book registry (data\_structures.py, lines 8-55)\<close>

text \<open>
  An entry of \<open>NEW_TESTAMENT\<close> is the tuple
  \<open>(number, short name, abbreviation, title, KJV abbreviation)\<close>; the source indexes
  it with \<open>book[0]\<close>, \<open>book[1]\<close>, \<open>book[2]\<close> and \<open>book[4]\<close>.
\<close>

type_synonym book = "int \<times> string \<times> string \<times> string \<times> string"

definition book0 :: "book \<Rightarrow> int" where
  "book0 b = fst b"

definition book1 :: "book \<Rightarrow> string" where
  "book1 b = fst (snd b)"

definition book2 :: "book \<Rightarrow> string" where
  "book2 b = fst (snd (snd b))"

definition book4 :: "book \<Rightarrow> string" where
  "book4 b = snd (snd (snd (snd b)))"

definition NEW_TESTAMENT :: "book list" where
  "NEW_TESTAMENT =
   [(1, ''Matthew'', ''Mt'', ''The Gospel According to Matthew'', ''Matt''),
    (2, ''Mark'', ''Mk'', ''The Gospel According to Mark'', ''Mark''),
    (3, ''Luke'', ''Lk'', ''The Gospel According to Luke'', ''Luke''),
    (4, ''John'', ''Jn'', ''The Gospel According to John'', ''John''),
    (5, ''Acts'', ''Acts'', ''The Acts of the Apostles'', ''Acts''),
    (6, ''Romans'', ''Rom'', ''The Letter to the Romans'', ''Rom''),
    (7, ''1 Corinthians'', ''1Co'', ''The First Letter to the Corinthians'', ''1Cor''),
    (8, ''2 Corinthians'', ''2Co'', ''The Second Letter to the Corinthians'', ''2Cor''),
    (9, ''Galatians'', ''Gal'', ''The Letter to the Galatians'', ''Gal''),
    (10, ''Ephesians'', ''Eph'', ''The Letter to the Ephesians'', ''Eph''),
    (11, ''Philippians'', ''Phil'', ''The Letter to the Philippians'', ''Phil''),
    (12, ''Colossians'', ''Col'', ''The Letter to the Colossians'', ''Col''),
    (13, ''1 Thessalonians'', ''1Th'', ''The First Letter to the Thessalonians'', ''1Thess''),
    (14, ''2 Thessalonians'', ''2Th'', ''The Second Letter to the Thessalonians'', ''2Thess''),
    (15, ''1 Timothy'', ''1Ti'', ''The First Letter to Timothy'', ''1Tim''),
    (16, ''2 Timothy'', ''2Ti'', ''The Second Letter to Timothy'', ''2Tim''),
    (17, ''Titus'', ''Tit'', ''The Letter to Titus'', ''Titus''),
    (18, ''Philemon'', ''Phm'', ''The Letter to Philemon'', ''Philem''),
    (19, ''Hebrews'', ''Heb'', ''The Letter to the Hebrews'', ''Heb''),
    (20, ''James'', ''Jas'', ''The Letter of James'', ''Jas''),
    (21, ''1 Peter'', ''1Pe'', ''The First Letter of Peter'', ''1Pet''),
    (22, ''2 Peter'', ''2Pe'', ''The Second Letter of Peter'', ''2Pet''),
    (23, ''1 John'', ''1Jn'', ''The First Letter of John'', ''1John''),
    (24, ''2 John'', ''2Jn'', ''The Second Letter of John'', ''2John''),
    (25, ''3 John'', ''3Jn'', ''The Third Letter of John'', ''3John''),
    (26, ''Jude'', ''Jude'', ''The Letter of Jude'', ''Jude''),
    (27, ''Revelation'', ''Rev'', ''The Revelation to John'', ''Rev'')]"

text \<open>
  A dict comprehension \<open>{k: v for ...}\<close> inserts the pairs in order, a later pair
  replacing an earlier one with the same key.
\<close>

definition dict_of :: "('k \<times> 'v) list \<Rightarrow> ('k \<rightharpoonup> 'v)" where
  "dict_of kvs = foldl (\<lambda>m kv. m(fst kv \<mapsto> snd kv)) Map.empty kvs"

definition SHORT_NAME_TO_DATA :: "string \<rightharpoonup> int \<times> string \<times> string" where
  "SHORT_NAME_TO_DATA = dict_of (map (\<lambda>b. (book1 b, (book0 b, book2 b, book4 b))) NEW_TESTAMENT)"

definition NUMBER_TO_DATA :: "int \<rightharpoonup> string \<times> string \<times> string" where
  "NUMBER_TO_DATA = dict_of (map (\<lambda>b. (book0 b, (book1 b, book2 b, book4 b))) NEW_TESTAMENT)"

definition ABBREV_TO_DATA :: "string \<rightharpoonup> int \<times> string \<times> string" where
  "ABBREV_TO_DATA = dict_of (map (\<lambda>b. (book2 b, (book0 b, book1 b, book4 b))) NEW_TESTAMENT)"

definition KJV_ABBREV_TO_DATA :: "string \<rightharpoonup> int \<times> string \<times> string" where
  "KJV_ABBREV_TO_DATA = dict_of (map (\<lambda>b. (book4 b, (book0 b, book1 b, book2 b))) NEW_TESTAMENT)"

text \<open>
  A book identifier is a Python \<open>int\<close> or \<open>str\<close>. The first component of the tuple
  that \<open>get_book_data\<close> returns is an \<open>int\<close> (the book number) for a string
  identifier and a \<open>str\<close> (the short name) for an integer identifier, so it has the
  same two-variant type.
\<close>

datatype pyval = PInt int | PStr string

fun get_book_data :: "pyval \<Rightarrow> (pyval \<times> string \<times> string) option" where
  "get_book_data (PInt i) =
     (case NUMBER_TO_DATA i of
        None \<Rightarrow> None
      | Some d \<Rightarrow> Some (PStr (fst d), snd d))"
| "get_book_data (PStr s) =
     (case SHORT_NAME_TO_DATA s of
        Some d \<Rightarrow> Some (PInt (fst d), snd d)
      | None \<Rightarrow>
          (case ABBREV_TO_DATA s of
             Some d \<Rightarrow> Some (PInt (fst d), snd d)
           | None \<Rightarrow>
               (case KJV_ABBREV_TO_DATA s of
                  Some d \<Rightarrow> Some (PInt (fst d), snd d)
                | None \<Rightarrow> None)))"

section \<open>The verse rows and the extent scans (lines 320-335)\<close>

text \<open>
  \<open>morphgnt_rows(book_num)\<close> belongs to the external package \<open>pysblgnt\<close>; it is a
  parameter of the model, a function from the book number to the rows it yields. Of a row
  the navigation reads the field \<open>'bcv'\<close> only, a string holding the book, chapter and
  verse numbers as decimal digits.
\<close>

record row =
  bcv :: string
  word_text :: string

type_synonym rows = "int \<Rightarrow> row list"

datatype error =
    Unknown_book
  | Book_not_found
  | Unknown_mode
  | Invalid_literal
  | Key_error

text \<open>
  \<open>int(s)\<close> on a string of decimal digits. The empty string raises \<open>ValueError\<close>.
  Python accepts a few more spellings (a sign, surrounding blanks, underscores between
  digits); they do not occur in the \<open>'bcv'\<close> field and are not modelled: every string
  that is not a non-empty run of the digits 0-9 is an \<open>Invalid_literal\<close> here, and the
  results below about the scans assume rows whose slices are digits.
\<close>

definition is_digit :: "char \<Rightarrow> bool" where
  "is_digit c = (48 \<le> (of_char c :: nat) \<and> (of_char c :: nat) \<le> 57)"

fun digits_val :: "int \<Rightarrow> string \<Rightarrow> int option" where
  "digits_val acc [] = Some acc"
| "digits_val acc (c # cs) =
     (if is_digit c then digits_val (acc * 10 + (int (of_char c) - 48)) cs else None)"

definition py_int :: "string \<Rightarrow> int option" where
  "py_int s = (if s = [] then None else digits_val 0 s)"

text \<open>The slices \<open>row['bcv'][2:4]\<close> and \<open>row['bcv'][4:]\<close>.\<close>

definition chapter_slice :: "row \<Rightarrow> string" where
  "chapter_slice r = take 2 (drop 2 (bcv r))"

definition verse_slice :: "row \<Rightarrow> string" where
  "verse_slice r = drop 4 (bcv r)"

text \<open>The loop of \<open>get_max_chapter\<close>, with the running maximum as accumulator.\<close>

fun max_chapter_loop :: "int \<Rightarrow> row list \<Rightarrow> error + int" where
  "max_chapter_loop max_chapter [] = Inr max_chapter"
| "max_chapter_loop max_chapter (r # rs) =
     (case py_int (chapter_slice r) of
        None \<Rightarrow> Inl Invalid_literal
      | Some c \<Rightarrow> max_chapter_loop (if c > max_chapter then c else max_chapter) rs)"

definition get_max_chapter :: "rows \<Rightarrow> int \<Rightarrow> error + int" where
  "get_max_chapter morphgnt_rows book_num = max_chapter_loop 0 (morphgnt_rows book_num)"

text \<open>The loop of \<open>get_max_verse\<close>: both slices are converted for every row.\<close>

fun max_verse_loop :: "int \<Rightarrow> int \<Rightarrow> row list \<Rightarrow> error + int" where
  "max_verse_loop chapter max_verse [] = Inr max_verse"
| "max_verse_loop chapter max_verse (r # rs) =
     (case py_int (chapter_slice r) of
        None \<Rightarrow> Inl Invalid_literal
      | Some c \<Rightarrow>
          (case py_int (verse_slice r) of
             None \<Rightarrow> Inl Invalid_literal
           | Some v \<Rightarrow>
               max_verse_loop chapter (if c = chapter \<and> v > max_verse then v else max_verse) rs))"

definition get_max_verse :: "rows \<Rightarrow> int \<Rightarrow> int \<Rightarrow> error + int" where
  "get_max_verse morphgnt_rows book_num chapter =
     max_verse_loop chapter 0 (morphgnt_rows book_num)"

section \<open>Navigation (lines 295-396)\<close>

type_synonym address = "string \<times> int \<times> int"

text \<open>
  The search for the book's index: \<open>book[0] == book_num\<close> compares the entry's number
  with the first component of the book data, which is not a number when the identifier was
  one (an \<open>int\<close> never equals a \<open>str\<close>).
\<close>

fun book_idx_loop :: "pyval \<Rightarrow> nat \<Rightarrow> book list \<Rightarrow> nat option" where
  "book_idx_loop book_num idx [] = None"
| "book_idx_loop book_num idx (b # bs) =
     (if PInt (book0 b) = book_num then Some idx else book_idx_loop book_num (Suc idx) bs)"

text \<open>\<open>return (NUMBER_TO_DATA[book_num][0], chapter, verse)\<close>\<close>

definition in_book :: "int \<Rightarrow> int \<Rightarrow> int \<Rightarrow> error + address" where
  "in_book book_num chapter verse =
     (case NUMBER_TO_DATA book_num of
        None \<Rightarrow> Inl Key_error
      | Some d \<Rightarrow> Inr (fst d, chapter, verse))"

definition next_verse :: "rows \<Rightarrow> int \<Rightarrow> nat \<Rightarrow> int \<Rightarrow> int \<Rightarrow> error + address" where
  "next_verse morphgnt_rows book_num book_idx current_chapter current_verse =
     (case get_max_verse morphgnt_rows book_num current_chapter of
        Inl e \<Rightarrow> Inl e
      | Inr max_verse \<Rightarrow>
          if current_verse < max_verse then in_book book_num current_chapter (current_verse + 1)
          else
            (case get_max_chapter morphgnt_rows book_num of
               Inl e \<Rightarrow> Inl e
             | Inr max_chapter \<Rightarrow>
                 if current_chapter < max_chapter then in_book book_num (current_chapter + 1) 1
                 else if int book_idx < int (length NEW_TESTAMENT) - 1 then
                   Inr (book1 (NEW_TESTAMENT ! (book_idx + 1)), 1, 1)
                 else in_book book_num current_chapter current_verse))"

definition previous_verse :: "rows \<Rightarrow> int \<Rightarrow> nat \<Rightarrow> int \<Rightarrow> int \<Rightarrow> error + address" where
  "previous_verse morphgnt_rows book_num book_idx current_chapter current_verse =
     (if current_verse > 1 then in_book book_num current_chapter (current_verse - 1)
      else if current_chapter > 1 then
        (let prev_chapter = current_chapter - 1 in
         case get_max_verse morphgnt_rows book_num prev_chapter of
           Inl e \<Rightarrow> Inl e
         | Inr prev_max_verse \<Rightarrow> in_book book_num prev_chapter prev_max_verse)
      else if book_idx > 0 then
        (let prev_book = NEW_TESTAMENT ! (book_idx - 1);
             prev_book_num = book0 prev_book in
         case get_max_chapter morphgnt_rows prev_book_num of
           Inl e \<Rightarrow> Inl e
         | Inr prev_max_chapter \<Rightarrow>
             (case get_max_verse morphgnt_rows prev_book_num prev_max_chapter of
                Inl e \<Rightarrow> Inl e
              | Inr prev_max_verse \<Rightarrow> Inr (book1 prev_book, prev_max_chapter, prev_max_verse)))
      else in_book book_num current_chapter current_verse)"

definition start_of_chapter :: "rows \<Rightarrow> int \<Rightarrow> nat \<Rightarrow> int \<Rightarrow> int \<Rightarrow> error + address" where
  "start_of_chapter morphgnt_rows book_num book_idx current_chapter current_verse =
     (if current_verse = 1 then
        (if current_chapter > 1 then in_book book_num (current_chapter - 1) 1
         else if book_idx > 0 then
           (let prev_book = NEW_TESTAMENT ! (book_idx - 1);
                prev_book_num = book0 prev_book in
            case get_max_chapter morphgnt_rows prev_book_num of
              Inl e \<Rightarrow> Inl e
            | Inr prev_max_chapter \<Rightarrow> Inr (book1 prev_book, prev_max_chapter, 1))
         else in_book book_num current_chapter current_verse)
      else in_book book_num current_chapter 1)"

definition start_of_next_chapter :: "rows \<Rightarrow> int \<Rightarrow> nat \<Rightarrow> int \<Rightarrow> int \<Rightarrow> error + address" where
  "start_of_next_chapter morphgnt_rows book_num book_idx current_chapter current_verse =
     (case get_max_chapter morphgnt_rows book_num of
        Inl e \<Rightarrow> Inl e
      | Inr max_chapter \<Rightarrow>
          if current_chapter < max_chapter then in_book book_num (current_chapter + 1) 1
          else if int book_idx < int (length NEW_TESTAMENT) - 1 then
            Inr (book1 (NEW_TESTAMENT ! (book_idx + 1)), 1, 1)
          else in_book book_num current_chapter current_verse)"

text \<open>
  \<open>navigate_verse\<close>. Once the index search has succeeded the first component of the
  book data is a number; for a string there the search finds nothing, which is the
  \<open>Book_not_found\<close> error.
\<close>

definition navigate_verse :: "rows \<Rightarrow> pyval \<Rightarrow> int \<Rightarrow> int \<Rightarrow> string \<Rightarrow> error + address" where
  "navigate_verse morphgnt_rows current_book current_chapter current_verse mode =
     (case get_book_data current_book of
        None \<Rightarrow> Inl Unknown_book
      | Some book_data \<Rightarrow>
          (case book_idx_loop (fst book_data) 0 NEW_TESTAMENT of
             None \<Rightarrow> Inl Book_not_found
           | Some book_idx \<Rightarrow>
               (case fst book_data of
                  PStr s \<Rightarrow> Inl Book_not_found
                | PInt book_num \<Rightarrow>
                    if mode = ''next_verse'' then
                      next_verse morphgnt_rows book_num book_idx current_chapter current_verse
                    else if mode = ''previous_verse'' then
                      previous_verse morphgnt_rows book_num book_idx current_chapter current_verse
                    else if mode = ''start_of_chapter'' then
                      start_of_chapter morphgnt_rows book_num book_idx current_chapter current_verse
                    else if mode = ''start_of_next_chapter'' then
                      start_of_next_chapter morphgnt_rows book_num book_idx current_chapter current_verse
                    else Inl Unknown_mode)))"

section \<open>The user-translation store (lines 245-272)\<close>

text \<open>
  The JSON file holds a dict nested by book, then \<open>str(chapter)\<close>, then
  \<open>str(verse)\<close>. The file is the state: \<open>None\<close> when it does not exist yet.
  \<open>save_user_translation\<close> returns the file it has written. The source's local
  variable for the loaded dict is written \<open>user_translations\<close> here.
\<close>

type_synonym user_translations = "string \<rightharpoonup> (string \<rightharpoonup> (string \<rightharpoonup> string))"

text \<open>\<open>str(n)\<close> of an \<open>int\<close>: its decimal digits, after a minus sign when negative.\<close>

definition digit_char :: "nat \<Rightarrow> char" where
  "digit_char d = char_of (48 + d)"

function digits_of_nat :: "nat \<Rightarrow> string" where
  "digits_of_nat n =
     (if n < 10 then [digit_char n] else digits_of_nat (n div 10) @ [digit_char (n mod 10)])"
  by pat_completeness auto
termination
  by (relation "measure (\<lambda>n. n)") auto

declare digits_of_nat.simps [simp del]

definition py_str :: "int \<Rightarrow> string" where
  "py_str i = (if i < 0 then CHR ''-'' # digits_of_nat (nat (- i)) else digits_of_nat (nat i))"

definition load_user_translations :: "user_translations option \<Rightarrow> user_translations" where
  "load_user_translations file = (case file of None \<Rightarrow> Map.empty | Some t \<Rightarrow> t)"

text \<open>
  \<open>d.setdefault(k, {})\<close> returns the dict stored under \<open>k\<close>, an empty one (which it
  stores) when the key is missing; the assignment that follows writes into that dict.
\<close>

definition setdefault :: "('k \<rightharpoonup> ('j \<rightharpoonup> 'v)) \<Rightarrow> 'k \<Rightarrow> ('j \<rightharpoonup> 'v)" where
  "setdefault d k = (case d k of None \<Rightarrow> Map.empty | Some inner \<Rightarrow> inner)"

definition save_user_translation ::
  "user_translations option \<Rightarrow> string \<Rightarrow> int \<Rightarrow> int \<Rightarrow> string \<Rightarrow> user_translations option" where
  "save_user_translation file book chapter verse translation =
     (let user_translations = load_user_translations file;
          chapters = setdefault user_translations book;
          verses = setdefault chapters (py_str chapter)
      in Some (user_translations(book \<mapsto>
                 chapters(py_str chapter \<mapsto> verses(py_str verse \<mapsto> translation)))))"

text \<open>\<open>d.get(book, {}).get(chapter_key, {}).get(verse_key)\<close> on the loaded dict.\<close>

definition get_entry :: "user_translations \<Rightarrow> string \<Rightarrow> string \<Rightarrow> string \<Rightarrow> string option" where
  "get_entry d book chapter_key verse_key =
     (case d book of
        None \<Rightarrow> None
      | Some chapters \<Rightarrow>
          (case chapters chapter_key of
             None \<Rightarrow> None
           | Some verses \<Rightarrow> verses verse_key))"

definition load_user_translation ::
  "user_translations option \<Rightarrow> string \<Rightarrow> int \<Rightarrow> int \<Rightarrow> string option" where
  "load_user_translation file book chapter verse =
     (case file of
        None \<Rightarrow> None
      | Some d \<Rightarrow> get_entry d book (py_str chapter) (py_str verse))"

section \<open>Notions used to state the properties\<close>

text \<open>The short name of the book at position \<open>n\<close> of the canonical order.\<close>

definition full_name :: "int \<Rightarrow> string" where
  "full_name n = book1 (NEW_TESTAMENT ! nat (n - 1))"

text \<open>The chapter and verse numbers of a row whose slices are digits.\<close>

definition wf_row :: "row \<Rightarrow> bool" where
  "wf_row r = (py_int (chapter_slice r) \<noteq> None \<and> py_int (verse_slice r) \<noteq> None)"

definition chapter_no :: "row \<Rightarrow> int" where
  "chapter_no r = the (py_int (chapter_slice r))"

definition verse_no :: "row \<Rightarrow> int" where
  "verse_no r = the (py_int (verse_slice r))"

text \<open>
  A small store for the concrete instances: Matthew with 1:1, 1:2 and 2:1 (not in
  order), Mark with 1:1, Revelation ending at 22:21 as the text does, nothing else.
\<close>

definition mk_row :: "string \<Rightarrow> row" where
  "mk_row s = \<lparr>bcv = s, word_text = []\<rparr>"

definition sample_rows :: rows where
  "sample_rows b =
     (if b = 1 then [mk_row ''010201'', mk_row ''010102'', mk_row ''010101'']
      else if b = 2 then [mk_row ''020101'']
      else if b = 27 then [mk_row ''272220'', mk_row ''272221'', mk_row ''272101'']
      else [])"

text \<open>The rows of Matthew in the sample store, in order.\<close>

definition sorted_rows :: rows where
  "sorted_rows b =
     (if b = 1 then [mk_row ''010101'', mk_row ''010102'', mk_row ''010201''] else [])"

text \<open>A file written by one call of \<open>save_user_translation\<close>, no file being there before.\<close>

definition one_entry :: "user_translations option" where
  "one_entry = save_user_translation None ''John'' 3 16 ''For God so loved''"

section \<open>Facts about the registry\<close>


lemmas book_sel = book0_def book1_def book2_def book4_def

declare get_book_data.simps [simp del]

lemmas table_defs =
  get_book_data.simps
  SHORT_NAME_TO_DATA_def NUMBER_TO_DATA_def ABBREV_TO_DATA_def KJV_ABBREV_TO_DATA_def
  dict_of_def NEW_TESTAMENT_def book_sel

lemma dict_of_map_of: "dict_of kvs = map_of (rev kvs)"
proof -
  have "foldl (\<lambda>m kv. m(fst kv \<mapsto> snd kv)) m kvs = m ++ map_of (rev kvs)" for m :: "'a \<rightharpoonup> 'b"
    by (induction kvs arbitrary: m) (auto simp: map_add_def fun_eq_iff split: option.splits)
  then show ?thesis by (simp add: dict_of_def)
qed

lemma dict_of_SomeD: "dict_of kvs k = Some v \<Longrightarrow> (k, v) \<in> set kvs"
  by (auto simp: dict_of_map_of dest: map_of_SomeD)

lemma numbers_upto: "map book0 NEW_TESTAMENT = [1..27]"
  by (simp add: NEW_TESTAMENT_def book_sel upto_rec1)

lemma length_NEW_TESTAMENT: "length NEW_TESTAMENT = 27"
  by (simp add: NEW_TESTAMENT_def)

lemma book0_nth:
  assumes "idx < 27" shows "book0 (NEW_TESTAMENT ! idx) = int idx + 1"
proof -
  have "book0 (NEW_TESTAMENT ! idx) = map book0 NEW_TESTAMENT ! idx"
    using assms by (simp add: length_NEW_TESTAMENT)
  also have "\<dots> = int idx + 1"
    using assms by (simp add: numbers_upto)
  finally show ?thesis .
qed

lemma book0_range: "b \<in> set NEW_TESTAMENT \<Longrightarrow> 1 \<le> book0 b \<and> book0 b \<le> 27"
proof -
  assume "b \<in> set NEW_TESTAMENT"
  then have "book0 b \<in> set (map book0 NEW_TESTAMENT)" by simp
  then show ?thesis by (simp add: numbers_upto)
qed

lemma book_idx_loop_PStr: "book_idx_loop (PStr s) idx bs = None"
  by (induction bs arbitrary: idx) simp_all

lemma book_idx_loop_upto:
  "map book0 bs = [i..j] \<Longrightarrow> i \<le> n \<Longrightarrow> n \<le> j \<Longrightarrow>
   book_idx_loop (PInt n) idx bs = Some (idx + nat (n - i))"
proof (induction bs arbitrary: i idx)
  case Nil
  then show ?case by simp
next
  case (Cons b bs)
  from Cons.prems have ij: "i \<le> j" by simp
  with Cons.prems(1) have b: "book0 b = i" and bs: "map book0 bs = [i + 1..j]"
    by (simp_all add: upto_rec1)
  show ?case
  proof (cases "n = i")
    case True
    with b show ?thesis by simp
  next
    case False
    with Cons.prems have "i + 1 \<le> n" by simp
    from Cons.IH [OF bs this Cons.prems(3), of "Suc idx"] False b Cons.prems(2)
    show ?thesis by (simp add: nat_diff_distrib)
  qed
qed

lemma book_idx_loop_number:
  "1 \<le> n \<Longrightarrow> n \<le> 27 \<Longrightarrow> book_idx_loop (PInt n) 0 NEW_TESTAMENT = Some (nat (n - 1))"
  using book_idx_loop_upto [OF numbers_upto, of n 0] by simp

lemma NUMBER_TO_DATA_all:
  "list_all (\<lambda>b. NUMBER_TO_DATA (book0 b) = Some (book1 b, book2 b, book4 b)) NEW_TESTAMENT"
  by (simp add: table_defs)

lemma resolve_all:
  "list_all (\<lambda>b. get_book_data (PStr (book1 b)) = Some (PInt (book0 b), book2 b, book4 b)) NEW_TESTAMENT"
  by (simp add: table_defs)




lemma nth_in_NT: "1 \<le> n \<Longrightarrow> n \<le> 27 \<Longrightarrow> NEW_TESTAMENT ! nat (n - 1) \<in> set NEW_TESTAMENT"
  by (simp add: length_NEW_TESTAMENT)

lemma book0_full: "1 \<le> n \<Longrightarrow> n \<le> 27 \<Longrightarrow> book0 (NEW_TESTAMENT ! nat (n - 1)) = n"
  using book0_nth [of "nat (n - 1)"] by simp

lemma NUMBER_TO_DATA_full_name:
  assumes "1 \<le> n" "n \<le> 27"
  shows "\<exists>a k. NUMBER_TO_DATA n = Some (full_name n, a, k)"
proof -
  let ?b = "NEW_TESTAMENT ! nat (n - 1)"
  have "NUMBER_TO_DATA (book0 ?b) = Some (book1 ?b, book2 ?b, book4 ?b)"
    using NUMBER_TO_DATA_all nth_in_NT [OF assms] by (simp add: list_all_iff)
  then show ?thesis
    by (simp add: book0_full [OF assms] full_name_def)
qed

lemma get_book_data_full_name:
  assumes "1 \<le> n" "n \<le> 27"
  shows "\<exists>a k. get_book_data (PStr (full_name n)) = Some (PInt n, a, k)"
proof -
  let ?b = "NEW_TESTAMENT ! nat (n - 1)"
  have "get_book_data (PStr (book1 ?b)) = Some (PInt (book0 ?b), book2 ?b, book4 ?b)"
    using resolve_all nth_in_NT [OF assms] by (simp add: list_all_iff)
  then show ?thesis
    by (simp add: book0_full [OF assms] full_name_def)
qed

lemma table_number_range:
  "dict_of (map (\<lambda>b. (f b, (book0 b, g b))) NEW_TESTAMENT) s = Some d \<Longrightarrow> 1 \<le> fst d \<and> fst d \<le> 27"
  by (drule dict_of_SomeD) (auto dest: book0_range)

lemma get_book_data_PStr_range:
  assumes "get_book_data (PStr s) = Some (p, a, k)"
  shows "\<exists>n. p = PInt n \<and> 1 \<le> n \<and> n \<le> 27"
  using assms
  by (auto simp: get_book_data.simps SHORT_NAME_TO_DATA_def ABBREV_TO_DATA_def
           KJV_ABBREV_TO_DATA_def
           split: option.splits dest: table_number_range)

lemma get_book_data_PInt:
  "get_book_data (PInt i) = Some (p, a, k) \<Longrightarrow> \<exists>s. p = PStr s"
  by (auto simp: get_book_data.simps split: option.splits)

lemma in_book_full_name:
  "1 \<le> n \<Longrightarrow> n \<le> 27 \<Longrightarrow> in_book n c v = Inr (full_name n, c, v)"
  using NUMBER_TO_DATA_full_name [of n] by (auto simp: in_book_def)

lemma navigate_verse_PStr:
  assumes "get_book_data (PStr s) = Some (PInt n, a, k)"
  shows "navigate_verse morphgnt_rows (PStr s) c v mode =
    (if mode = ''next_verse'' then next_verse morphgnt_rows n (nat (n - 1)) c v
     else if mode = ''previous_verse'' then previous_verse morphgnt_rows n (nat (n - 1)) c v
     else if mode = ''start_of_chapter'' then start_of_chapter morphgnt_rows n (nat (n - 1)) c v
     else if mode = ''start_of_next_chapter'' then
       start_of_next_chapter morphgnt_rows n (nat (n - 1)) c v
     else Inl Unknown_mode)"
proof -
  from get_book_data_PStr_range [OF assms] have n: "1 \<le> n" "n \<le> 27" by simp_all
  then have "book_idx_loop (PInt n) 0 NEW_TESTAMENT = Some (nat (n - 1))"
    by (rule book_idx_loop_number)
  then show ?thesis
    by (simp add: navigate_verse_def assms)
qed

lemma navigate_verse_PInt:
  "navigate_verse morphgnt_rows (PInt i) c v mode =
     (case NUMBER_TO_DATA i of None \<Rightarrow> Inl Unknown_book | Some d \<Rightarrow> Inl Book_not_found)"
  by (simp add: navigate_verse_def get_book_data.simps book_idx_loop_PStr split: option.splits)

lemma next_idx: "1 \<le> n \<Longrightarrow> Suc (nat (n - 1)) = nat (n + 1 - 1)"
  by arith

lemma prev_idx: "1 < n \<Longrightarrow> nat (n - 1) - Suc 0 = nat (n - 1 - 1)"
  by arith

lemma next_name: "1 \<le> n \<Longrightarrow> book1 (NEW_TESTAMENT ! Suc (nat (n - 1))) = full_name (n + 1)"
  by (simp only: full_name_def next_idx)

lemma prev_name: "1 < n \<Longrightarrow> book1 (NEW_TESTAMENT ! (nat (n - 1) - Suc 0)) = full_name (n - 1)"
  by (simp only: full_name_def prev_idx)

lemma prev_number: "1 < n \<Longrightarrow> n \<le> 27 \<Longrightarrow> book0 (NEW_TESTAMENT ! (nat (n - 1) - Suc 0)) = n - 1"
  using book0_full [of "n - 1"] by (simp add: prev_idx)

lemma next_verse_eq:
  assumes "1 \<le> n" "n \<le> 27"
  shows "next_verse morphgnt_rows n (nat (n - 1)) c v =
     (case get_max_verse morphgnt_rows n c of
        Inl e \<Rightarrow> Inl e
      | Inr mv \<Rightarrow>
          if v < mv then Inr (full_name n, c, v + 1)
          else
            (case get_max_chapter morphgnt_rows n of
               Inl e \<Rightarrow> Inl e
             | Inr mc \<Rightarrow>
                 if c < mc then Inr (full_name n, c + 1, 1)
                 else if n < 27 then Inr (full_name (n + 1), 1, 1)
                 else Inr (full_name n, c, v)))"
  using assms
  by (auto simp: next_verse_def in_book_full_name next_name length_NEW_TESTAMENT split: sum.splits)

lemma start_of_next_chapter_eq:
  assumes "1 \<le> n" "n \<le> 27"
  shows "start_of_next_chapter morphgnt_rows n (nat (n - 1)) c v =
            (case get_max_chapter morphgnt_rows n of
               Inl e \<Rightarrow> Inl e
             | Inr mc \<Rightarrow>
                 if c < mc then Inr (full_name n, c + 1, 1)
                 else if n < 27 then Inr (full_name (n + 1), 1, 1)
                 else Inr (full_name n, c, v))"
  using assms
  by (auto simp: start_of_next_chapter_def in_book_full_name next_name length_NEW_TESTAMENT split: sum.splits)

lemma previous_verse_eq:
  assumes "1 \<le> n" "n \<le> 27"
  shows "previous_verse morphgnt_rows n (nat (n - 1)) c v =
     (if v > 1 then Inr (full_name n, c, v - 1)
      else if c > 1 then
        (case get_max_verse morphgnt_rows n (c - 1) of
           Inl e \<Rightarrow> Inl e
         | Inr mv \<Rightarrow> Inr (full_name n, c - 1, mv))
      else if n > 1 then
        (case get_max_chapter morphgnt_rows (n - 1) of
           Inl e \<Rightarrow> Inl e
         | Inr mc \<Rightarrow>
             (case get_max_verse morphgnt_rows (n - 1) mc of
                Inl e \<Rightarrow> Inl e
              | Inr mv \<Rightarrow> Inr (full_name (n - 1), mc, mv)))
      else Inr (full_name n, c, v))"
  using assms
  by (auto simp: previous_verse_def in_book_full_name prev_name prev_number Let_def split: sum.splits)

lemma start_of_chapter_eq:
  assumes "1 \<le> n" "n \<le> 27"
  shows "start_of_chapter morphgnt_rows n (nat (n - 1)) c v =
     (if v = 1 then
        (if c > 1 then Inr (full_name n, c - 1, 1)
         else if n > 1 then
           (case get_max_chapter morphgnt_rows (n - 1) of
              Inl e \<Rightarrow> Inl e
            | Inr mc \<Rightarrow> Inr (full_name (n - 1), mc, 1))
         else Inr (full_name n, c, v))
      else Inr (full_name n, c, 1))"
  using assms
  by (auto simp: start_of_chapter_def in_book_full_name prev_name prev_number Let_def split: sum.splits)


section \<open>Facts about the extent scans\<close>

lemma digits_val_nonneg: "digits_val acc s = Some x \<Longrightarrow> 0 \<le> acc \<Longrightarrow> acc \<le> x"
proof (induction s arbitrary: acc)
  case Nil
  then show ?case by simp
next
  case (Cons c cs)
  from Cons.prems have d: "is_digit c" and r: "digits_val (acc * 10 + (int (of_char c) - 48)) cs = Some x"
    by (simp_all split: if_splits)
  from d have "48 \<le> int (of_char c)" by (simp add: is_digit_def)
  with Cons.prems(2) have "acc \<le> acc * 10 + (int (of_char c) - 48)" by simp
  moreover from this Cons.prems(2) have "0 \<le> acc * 10 + (int (of_char c) - 48)" by simp
  ultimately show ?case using Cons.IH [OF r] by simp
qed

lemma py_int_nonneg: "py_int s = Some x \<Longrightarrow> 0 \<le> x"
  using digits_val_nonneg [of 0 s x] by (simp add: py_int_def split: if_splits)

lemma Max_insert_max:
  "finite S \<Longrightarrow> Max (insert (max a b) S) = Max (insert a (insert b S))" for a :: int
  by (cases "S = {}") (simp_all add: max.assoc)

lemma chapter_no_nonneg: "wf_row r \<Longrightarrow> 0 \<le> chapter_no r"
  by (auto simp: wf_row_def chapter_no_def dest: py_int_nonneg)

lemma verse_no_nonneg: "wf_row r \<Longrightarrow> 0 \<le> verse_no r"
  by (auto simp: wf_row_def verse_no_def dest: py_int_nonneg)

lemma max_chapter_loop_wf:
  "list_all wf_row rs \<Longrightarrow> max_chapter_loop m rs = Inr (Max (insert m (set (map chapter_no rs))))"
proof (induction rs arbitrary: m)
  case Nil
  then show ?case by simp
next
  case (Cons r rs)
  from Cons.prems obtain c where c: "py_int (chapter_slice r) = Some c"
    by (auto simp: wf_row_def)
  then have cn: "chapter_no r = c" by (simp add: chapter_no_def)
  have fin: "finite (set (map chapter_no rs))" by simp
  from Cons.prems have "list_all wf_row rs" by simp
  from Cons.IH [OF this] have
    "max_chapter_loop (max m c) rs = Inr (Max (insert (max m c) (set (map chapter_no rs))))" .
  moreover have "Max (insert (max m c) (set (map chapter_no rs))) = Max (insert m (insert c (set (map chapter_no rs))))"
    using fin by (rule Max_insert_max)
  moreover have "(if c > m then c else m) = max m c" by (simp add: max_def)
  ultimately show ?case using c cn by (simp add: insert_commute)
qed

lemma max_verse_loop_wf:
  "list_all wf_row rs \<Longrightarrow>
   max_verse_loop ch m rs = Inr (Max (insert m (set (map verse_no (filter (\<lambda>r. chapter_no r = ch) rs)))))"
proof (induction rs arbitrary: m)
  case Nil
  then show ?case by simp
next
  case (Cons r rs)
  from Cons.prems obtain c v where c: "py_int (chapter_slice r) = Some c"
    and v: "py_int (verse_slice r) = Some v"
    by (auto simp: wf_row_def)
  then have cn: "chapter_no r = c" and vn: "verse_no r = v"
    by (simp_all add: chapter_no_def verse_no_def)
  let ?S = "set (map verse_no (filter (\<lambda>r. chapter_no r = ch) rs))"
  have fin: "finite ?S" by simp
  from Cons.prems have wf: "list_all wf_row rs" by simp
  show ?case
  proof (cases "c = ch")
    case True
    have "Max (insert (max m v) ?S) = Max (insert m (insert v ?S))"
      using fin by (rule Max_insert_max)
    moreover have "(if v > m then v else m) = max m v" by (simp add: max_def)
    ultimately show ?thesis
      using c v cn vn True Cons.IH [OF wf, of "max m v"] by (simp add: insert_commute)
  next
    case False
    then show ?thesis
      using c v cn vn Cons.IH [OF wf, of m] by simp
  qed
qed

lemma Max_insert_0:
  assumes "finite S" "\<forall>x\<in>S. (0::int) \<le> x"
  shows "Max (insert 0 S) = (if S = {} then 0 else Max S)"
proof (cases "S = {}")
  case True
  then show ?thesis by simp
next
  case False
  with assms have "0 \<le> Max S" by (meson Max_in)
  with assms False show ?thesis by (simp add: max_def)
qed

lemma max_chapter_loop_Inr_iff:
  "(\<exists>x. max_chapter_loop m rs = Inr x) \<longleftrightarrow> list_all (\<lambda>r. py_int (chapter_slice r) \<noteq> None) rs"
  by (induction rs arbitrary: m) (auto split: option.splits)

lemma max_verse_loop_Inr_iff:
  "(\<exists>x. max_verse_loop ch m rs = Inr x) \<longleftrightarrow> list_all wf_row rs"
  by (induction rs arbitrary: m) (auto simp: wf_row_def split: option.splits)


section \<open>Navigation by a string identifier\<close>


lemmas scan_defs =
  get_max_chapter_def get_max_verse_def sample_rows_def mk_row_def py_int_def
  is_digit_def chapter_slice_def verse_slice_def

lemma nav_next_verse:
  assumes "get_book_data (PStr s) = Some (PInt n, a, k)"
  shows "navigate_verse morphgnt_rows (PStr s) c v ''next_verse'' =
     (case get_max_verse morphgnt_rows n c of
        Inl e \<Rightarrow> Inl e
      | Inr mv \<Rightarrow>
          if v < mv then Inr (full_name n, c, v + 1)
          else
            (case get_max_chapter morphgnt_rows n of
               Inl e \<Rightarrow> Inl e
             | Inr mc \<Rightarrow>
                 if c < mc then Inr (full_name n, c + 1, 1)
                 else if n < 27 then Inr (full_name (n + 1), 1, 1)
                 else Inr (full_name n, c, v)))"
proof -
  from get_book_data_PStr_range [OF assms] have n: "1 \<le> n" "n \<le> 27" by simp_all
  have "navigate_verse morphgnt_rows (PStr s) c v ''next_verse'' =
      next_verse morphgnt_rows n (nat (n - 1)) c v"
    by (simp add: navigate_verse_PStr [OF assms])
  then show ?thesis
    by (simp only: next_verse_eq [OF n])
qed

lemma nav_previous_verse:
  assumes "get_book_data (PStr s) = Some (PInt n, a, k)"
  shows "navigate_verse morphgnt_rows (PStr s) c v ''previous_verse'' =
     (if v > 1 then Inr (full_name n, c, v - 1)
      else if c > 1 then
        (case get_max_verse morphgnt_rows n (c - 1) of
           Inl e \<Rightarrow> Inl e
         | Inr mv \<Rightarrow> Inr (full_name n, c - 1, mv))
      else if n > 1 then
        (case get_max_chapter morphgnt_rows (n - 1) of
           Inl e \<Rightarrow> Inl e
         | Inr mc \<Rightarrow>
             (case get_max_verse morphgnt_rows (n - 1) mc of
                Inl e \<Rightarrow> Inl e
              | Inr mv \<Rightarrow> Inr (full_name (n - 1), mc, mv)))
      else Inr (full_name n, c, v))"
proof -
  from get_book_data_PStr_range [OF assms] have n: "1 \<le> n" "n \<le> 27" by simp_all
  have "navigate_verse morphgnt_rows (PStr s) c v ''previous_verse'' =
      previous_verse morphgnt_rows n (nat (n - 1)) c v"
    by (simp add: navigate_verse_PStr [OF assms])
  then show ?thesis
    by (simp only: previous_verse_eq [OF n])
qed

lemma nav_start_of_chapter:
  assumes "get_book_data (PStr s) = Some (PInt n, a, k)"
  shows "navigate_verse morphgnt_rows (PStr s) c v ''start_of_chapter'' =
     (if v = 1 then
        (if c > 1 then Inr (full_name n, c - 1, 1)
         else if n > 1 then
           (case get_max_chapter morphgnt_rows (n - 1) of
              Inl e \<Rightarrow> Inl e
            | Inr mc \<Rightarrow> Inr (full_name (n - 1), mc, 1))
         else Inr (full_name n, c, v))
      else Inr (full_name n, c, 1))"
proof -
  from get_book_data_PStr_range [OF assms] have n: "1 \<le> n" "n \<le> 27" by simp_all
  have "navigate_verse morphgnt_rows (PStr s) c v ''start_of_chapter'' =
      start_of_chapter morphgnt_rows n (nat (n - 1)) c v"
    by (simp add: navigate_verse_PStr [OF assms])
  then show ?thesis
    by (simp only: start_of_chapter_eq [OF n])
qed

lemma nav_start_of_next_chapter:
  assumes "get_book_data (PStr s) = Some (PInt n, a, k)"
  shows "navigate_verse morphgnt_rows (PStr s) c v ''start_of_next_chapter'' =
            (case get_max_chapter morphgnt_rows n of
               Inl e \<Rightarrow> Inl e
             | Inr mc \<Rightarrow>
                 if c < mc then Inr (full_name n, c + 1, 1)
                 else if n < 27 then Inr (full_name (n + 1), 1, 1)
                 else Inr (full_name n, c, v))"
proof -
  from get_book_data_PStr_range [OF assms] have n: "1 \<le> n" "n \<le> 27" by simp_all
  have "navigate_verse morphgnt_rows (PStr s) c v ''start_of_next_chapter'' =
      start_of_next_chapter morphgnt_rows n (nat (n - 1)) c v"
    by (simp add: navigate_verse_PStr [OF assms])
  then show ?thesis
    by (simp only: start_of_next_chapter_eq [OF n])
qed

lemma resolve_Matthew: "get_book_data (PStr ''Matthew'') = Some (PInt 1, ''Mt'', ''Matt'')"
  by (simp add: table_defs)
lemma resolve_Mt: "get_book_data (PStr ''Mt'') = Some (PInt 1, ''Matthew'', ''Matt'')"
  by (simp add: table_defs)
lemma resolve_Mark: "get_book_data (PStr ''Mark'') = Some (PInt 2, ''Mk'', ''Mark'')"
  by (simp add: table_defs)
lemma resolve_John: "get_book_data (PStr ''John'') = Some (PInt 4, ''Jn'', ''John'')"
  by (simp add: table_defs)
lemma resolve_Revelation: "get_book_data (PStr ''Revelation'') = Some (PInt 27, ''Rev'', ''Rev'')"
  by (simp add: table_defs)

lemma full_name_1: "full_name 1 = ''Matthew''" by (simp add: full_name_def table_defs)
lemma full_name_2: "full_name 2 = ''Mark''" by (simp add: full_name_def table_defs)
lemma full_name_4: "full_name 4 = ''John''" by (simp add: full_name_def table_defs)
lemma full_name_27: "full_name 27 = ''Revelation''" by (simp add: full_name_def table_defs)

lemma sample_Matthew:
  "get_max_chapter sample_rows 1 = Inr 2" "get_max_verse sample_rows 1 1 = Inr 2"
  "get_max_verse sample_rows 1 2 = Inr 1"
  by (simp_all add: scan_defs)

lemma sample_Revelation:
  "get_max_chapter sample_rows 27 = Inr 22" "get_max_verse sample_rows 27 22 = Inr 21"
  by (simp_all add: scan_defs)

section \<open>What the scans return\<close>

lemma max_chapter_loop_0:
  assumes "list_all wf_row rs"
  shows "max_chapter_loop 0 rs = Inr (if rs = [] then 0 else Max (set (map chapter_no rs)))"
proof -
  let ?S = "set (map chapter_no rs)"
  have "\<forall>x\<in>?S. 0 \<le> x"
    using assms by (auto simp: list_all_iff dest: chapter_no_nonneg)
  then have "Max (insert 0 ?S) = (if ?S = {} then 0 else Max ?S)"
    by (intro Max_insert_0) simp_all
  then show ?thesis
    by (simp add: max_chapter_loop_wf [OF assms])
qed

lemma max_verse_loop_0:
  assumes "list_all wf_row rs"
  shows "max_verse_loop chapter 0 rs =
     Inr (if filter (\<lambda>r. chapter_no r = chapter) rs = [] then 0
          else Max (set (map verse_no (filter (\<lambda>r. chapter_no r = chapter) rs))))"
proof -
  let ?rs = "filter (\<lambda>r. chapter_no r = chapter) rs"
  let ?S = "set (map verse_no ?rs)"
  have "\<forall>x\<in>?S. 0 \<le> x"
    using assms by (auto simp: list_all_iff dest: verse_no_nonneg)
  then have "Max (insert 0 ?S) = (if ?S = {} then 0 else Max ?S)"
    by (intro Max_insert_0) simp_all
  moreover have "?S = {} \<longleftrightarrow> ?rs = []"
    by (simp only: set_empty map_is_Nil_conv)
  ultimately show ?thesis
    by (simp only: max_verse_loop_wf [OF assms])
qed

lemma max_chapter_loop_mset:
  assumes "mset rs' = mset rs" "list_all wf_row rs"
  shows "max_chapter_loop 0 rs' = max_chapter_loop 0 rs"
proof -
  from assms(1) have set_eq: "set rs' = set rs" by (rule mset_eq_setD)
  with assms(2) have wf': "list_all wf_row rs'" by (simp add: list_all_iff)
  from assms(1) have nil: "(rs' = []) = (rs = [])" by (metis mset_zero_iff)
  show ?thesis
    by (simp add: max_chapter_loop_0 [OF assms(2)] max_chapter_loop_0 [OF wf'] set_eq nil)
qed

lemma max_verse_loop_mset:
  assumes "mset rs' = mset rs" "list_all wf_row rs"
  shows "max_verse_loop chapter 0 rs' = max_verse_loop chapter 0 rs"
proof -
  from assms(1) have set_eq: "set rs' = set rs" by (rule mset_eq_setD)
  with assms(2) have wf': "list_all wf_row rs'" by (simp add: list_all_iff)
  have nil: "(filter P rs' = []) = (filter P rs = [])" for P
    by (simp add: filter_empty_conv set_eq)
  show ?thesis
    by (simp add: max_verse_loop_0 [OF assms(2)] max_verse_loop_0 [OF wf'] set_eq nil)
qed

lemma wf_sample_1: "list_all wf_row (sample_rows 1)"
  by (simp add: wf_row_def scan_defs)

section \<open>The book of a result\<close>

lemma full_name_in_registry:
  "1 \<le> p \<Longrightarrow> p \<le> 27 \<Longrightarrow> full_name p \<in> set (map book1 NEW_TESTAMENT)"
  using nth_in_NT [of p] by (simp add: full_name_def)

lemma navigate_verse_Inr_PStr:
  assumes "navigate_verse morphgnt_rows ident c v mode = Inr r"
  shows "\<exists>s n a k. ident = PStr s \<and> get_book_data (PStr s) = Some (PInt n, a, k)"
proof (cases ident)
  case (PInt i)
  with assms show ?thesis
    by (simp add: navigate_verse_PInt split: option.splits)
next
  case (PStr s)
  with assms obtain d where d: "get_book_data (PStr s) = Some d"
    by (auto simp: navigate_verse_def split: option.splits)
  obtain p a k where "d = (p, a, k)" by (cases d) auto
  with d get_book_data_PStr_range [of s p a k] PStr show ?thesis by auto
qed

lemma nav_result_book:
  assumes "navigate_verse morphgnt_rows ident c v mode = Inr (b', c', v')"
  shows "\<exists>p. 1 \<le> p \<and> p \<le> 27 \<and> b' = full_name p"
proof -
  from navigate_verse_Inr_PStr [OF assms] obtain s n a k
    where ident: "ident = PStr s" and res: "get_book_data (PStr s) = Some (PInt n, a, k)"
    by blast
  from get_book_data_PStr_range [OF res] have n: "1 \<le> n" "n \<le> 27" by simp_all
  have b': "b' = full_name n \<or> (n < 27 \<and> b' = full_name (n + 1)) \<or> (1 < n \<and> b' = full_name (n - 1))"
  proof -
    consider "mode = ''next_verse''" | "mode = ''previous_verse''"
      | "mode = ''start_of_chapter''" | "mode = ''start_of_next_chapter''"
      | "mode \<noteq> ''next_verse''" "mode \<noteq> ''previous_verse''"
        "mode \<noteq> ''start_of_chapter''" "mode \<noteq> ''start_of_next_chapter''"
      by blast
    then show ?thesis
    proof cases
      case 1
      with assms ident show ?thesis
        by (auto simp: nav_next_verse [OF res] split: sum.splits if_splits)
    next
      case 2
      with assms ident show ?thesis
        by (auto simp: nav_previous_verse [OF res] split: sum.splits if_splits)
    next
      case 3
      with assms ident show ?thesis
        by (auto simp: nav_start_of_chapter [OF res] split: sum.splits if_splits)
    next
      case 4
      with assms ident show ?thesis
        by (auto simp: nav_start_of_next_chapter [OF res] split: sum.splits if_splits)
    next
      case 5
      with assms ident show ?thesis
        by (simp add: navigate_verse_PStr [OF res])
    qed
  qed
  then consider "b' = full_name n" | "n < 27" "b' = full_name (n + 1)"
    | "1 < n" "b' = full_name (n - 1)" by blast
  then show ?thesis
  proof cases
    case 1
    with n show ?thesis by blast
  next
    case 2
    with n have "1 \<le> n + 1 \<and> n + 1 \<le> 27 \<and> b' = full_name (n + 1)" by simp
    then show ?thesis by blast
  next
    case 3
    with n have "1 \<le> n - 1 \<and> n - 1 \<le> 27 \<and> b' = full_name (n - 1)" by simp
    then show ?thesis by blast
  qed
qed

lemma resolve_Rev: "get_book_data (PStr ''Rev'') = Some (PInt 27, ''Revelation'', ''Rev'')"
  by (simp add: table_defs)

section \<open>More facts about the sample store and the scans\<close>

lemma resolve_Luke: "get_book_data (PStr ''Luke'') = Some (PInt 3, ''Lk'', ''Luke'')"
  by (simp add: table_defs)

lemma full_name_3: "full_name 3 = ''Luke''" by (simp add: full_name_def table_defs)

lemma sample_Luke: "get_max_chapter sample_rows 3 = Inr 0" "get_max_verse sample_rows 3 1 = Inr 0"
  by (simp_all add: scan_defs)

lemma sample_Mark: "get_max_chapter sample_rows 2 = Inr 1" "get_max_verse sample_rows 2 1 = Inr 1"
  by (simp_all add: scan_defs)

lemma get_max_verse_any_chapter:
  assumes "get_max_verse morphgnt_rows n c = Inr mv"
  shows "\<exists>mv'. get_max_verse morphgnt_rows n c' = Inr mv'"
proof -
  from assms have "\<exists>x. max_verse_loop c 0 (morphgnt_rows n) = Inr x"
    by (simp add: get_max_verse_def)
  then have "list_all wf_row (morphgnt_rows n)"
    by (simp only: max_verse_loop_Inr_iff)
  then have "\<exists>x. max_verse_loop c' 0 (morphgnt_rows n) = Inr x"
    by (simp only: max_verse_loop_Inr_iff)
  then show ?thesis by (simp add: get_max_verse_def)
qed

lemma scans_succeed:
  assumes "list_all wf_row (morphgnt_rows n)"
  shows "\<exists>mc mv. get_max_chapter morphgnt_rows n = Inr mc \<and> get_max_verse morphgnt_rows n c = Inr mv"
  using assms by (simp add: get_max_chapter_def get_max_verse_def max_chapter_loop_0 max_verse_loop_0)

section \<open>Facts about the user-translation store\<close>

lemma digit_char_props:
  "\<forall>d\<in>set [0..<10]. is_digit (digit_char d) \<and> int (of_char (digit_char d)) - 48 = int d"
  by code_simp

lemma digit_char_digit: "d < 10 \<Longrightarrow> is_digit (digit_char d)"
  using digit_char_props by simp

lemma digit_char_val: "d < 10 \<Longrightarrow> int (of_char (digit_char d)) - 48 = int d"
  using digit_char_props by simp

lemma digits_val_append:
  "digits_val acc (xs @ ys) =
     (case digits_val acc xs of None \<Rightarrow> None | Some a \<Rightarrow> digits_val a ys)"
  by (induction xs arbitrary: acc) simp_all

lemma digits_val_digits_of_nat: "digits_val 0 (digits_of_nat n) = Some (int n)"
proof (induction n rule: digits_of_nat.induct)
  case (1 n)
  show ?case
  proof (cases "n < 10")
    case True
    then show ?thesis
      by (subst digits_of_nat.simps) (simp add: digit_char_digit digit_char_val)
  next
    case False
    with 1 have ih: "digits_val 0 (digits_of_nat (n div 10)) = Some (int (n div 10))" by simp
    have d: "n mod 10 < 10" by simp
    have "int (n div 10) * 10 + int (n mod 10) = int n"
      by (simp add: zdiv_int zmod_int)
    with False ih show ?thesis
      by (subst digits_of_nat.simps)
         (simp add: digits_val_append digit_char_digit [OF d] digit_char_val [OF d])
  qed
qed

lemma digits_of_nat_digits: "c \<in> set (digits_of_nat n) \<Longrightarrow> is_digit c"
proof (induction n rule: digits_of_nat.induct)
  case (1 n)
  show ?case
  proof (cases "n < 10")
    case True
    with "1.prems" show ?thesis
      by (subst (asm) digits_of_nat.simps) (simp add: digit_char_digit)
  next
    case False
    have d: "n mod 10 < 10" by simp
    from False "1.prems" have "c \<in> set (digits_of_nat (n div 10)) \<or> c = digit_char (n mod 10)"
      by (subst (asm) digits_of_nat.simps) auto
    with False 1 digit_char_digit [OF d] show ?thesis by auto
  qed
qed

lemma digits_of_nat_no_minus: "digits_of_nat n \<noteq> CHR ''-'' # cs"
proof
  assume "digits_of_nat n = CHR ''-'' # cs"
  then have "CHR ''-'' \<in> set (digits_of_nat n)" by simp
  then have "is_digit (CHR ''-'')" by (rule digits_of_nat_digits)
  then show False by (simp add: is_digit_def)
qed

lemma digits_of_nat_inj: "digits_of_nat m = digits_of_nat n \<Longrightarrow> m = n"
proof -
  assume "digits_of_nat m = digits_of_nat n"
  then have "digits_val 0 (digits_of_nat m) = digits_val 0 (digits_of_nat n)" by simp
  then show ?thesis by (simp add: digits_val_digits_of_nat)
qed

lemma py_str_inj: "py_str i = py_str j \<Longrightarrow> i = j"
proof -
  assume eq: "py_str i = py_str j"
  show ?thesis
  proof (cases "i < 0")
    case i: True
    show ?thesis
    proof (cases "j < 0")
      case True
      with i eq have "nat (- i) = nat (- j)"
        by (simp add: py_str_def digits_of_nat_inj)
      with i True show ?thesis by simp
    next
      case False
      with i eq digits_of_nat_no_minus [of "nat j" "digits_of_nat (nat (- i))"]
      show ?thesis by (simp add: py_str_def)
    qed
  next
    case i: False
    show ?thesis
    proof (cases "j < 0")
      case True
      with i eq digits_of_nat_no_minus [of "nat i" "digits_of_nat (nat (- j))"]
      show ?thesis by (simp add: py_str_def)
    next
      case False
      with i eq have "nat i = nat j"
        by (simp add: py_str_def digits_of_nat_inj)
      with i False show ?thesis by simp
    qed
  qed
qed

lemma py_int_py_str: "0 \<le> i \<Longrightarrow> py_int (py_str i) = Some i"
proof -
  assume i: "0 \<le> i"
  have "digits_of_nat (nat i) \<noteq> []"
    by (subst digits_of_nat.simps) simp
  with i show ?thesis
    by (simp add: py_int_def py_str_def digits_val_digits_of_nat)
qed

lemma get_entry_upd:
  "get_entry (d(book \<mapsto> chapters)) b ck vk =
     (if b = book then (case chapters ck of None \<Rightarrow> None | Some verses \<Rightarrow> verses vk)
      else get_entry d b ck vk)"
  by (simp add: get_entry_def)

lemma setdefault_entry:
  "(case setdefault d book ck of None \<Rightarrow> None | Some verses \<Rightarrow> verses vk) =
     get_entry d book ck vk"
  by (simp add: setdefault_def get_entry_def split: option.splits)

lemma get_entry_save:
  assumes "save_user_translation file book chapter verse text = Some d"
  shows "get_entry d b ck vk =
     (if (b, ck, vk) = (book, py_str chapter, py_str verse) then Some text
      else get_entry (load_user_translations file) b ck vk)"
proof -
  let ?T = "load_user_translations file"
  let ?C = "setdefault ?T book"
  let ?V = "setdefault ?C (py_str chapter)"
  from assms have d: "d = ?T(book \<mapsto> ?C(py_str chapter \<mapsto> ?V(py_str verse \<mapsto> text)))"
    by (simp add: save_user_translation_def Let_def)
  show ?thesis
  proof (cases "b = book")
    case False
    then show ?thesis by (simp add: d get_entry_upd)
  next
    case b: True
    show ?thesis
    proof (cases "ck = py_str chapter")
      case False
      with b show ?thesis
        by (simp add: d get_entry_upd setdefault_entry)
    next
      case ck: True
      show ?thesis
      proof (cases "vk = py_str verse")
        case True
        with b ck show ?thesis by (simp add: d get_entry_upd)
      next
        case False
        have "?V vk = get_entry ?T book (py_str chapter) vk"
          by (simp add: setdefault_def get_entry_def split: option.splits)
        with b ck False show ?thesis by (simp add: d get_entry_upd)
      qed
    qed
  qed
qed

lemma load_user_translation_eq:
  "load_user_translation file b c v =
     get_entry (load_user_translations file) b (py_str c) (py_str v)"
  by (simp add: load_user_translation_def load_user_translations_def get_entry_def
           split: option.splits)

lemma py_str_small: "py_str 3 = ''3''" "py_str 16 = ''16''" "py_str 17 = ''17''"
  by code_simp+

section \<open>An empty book, and integer identifiers\<close>

lemma empty_book_other_chapter:
  assumes mc: "get_max_chapter morphgnt_rows n = Inr 0"
    and mv: "get_max_verse morphgnt_rows n c = Inr mv0"
    and c': "1 \<le> c'"
  shows "get_max_verse morphgnt_rows n c' = Inr 0"
proof -
  let ?rs = "morphgnt_rows n"
  from mv have "\<exists>x. max_verse_loop c 0 ?rs = Inr x"
    by (simp add: get_max_verse_def)
  then have wf: "list_all wf_row ?rs"
    by (simp only: max_verse_loop_Inr_iff)
  from mc have m: "max_chapter_loop 0 ?rs = Inr 0"
    by (simp add: get_max_chapter_def)
  have le: "chapter_no r \<le> 0" if r: "r \<in> set ?rs" for r
  proof -
    from r have ne: "?rs \<noteq> []" by auto
    with m have "Max (set (map chapter_no ?rs)) = 0"
      by (simp add: max_chapter_loop_0 [OF wf])
    moreover from r have "chapter_no r \<le> Max (set (map chapter_no ?rs))"
      by (intro Max_ge) auto
    ultimately show ?thesis by simp
  qed
  have "filter (\<lambda>r. chapter_no r = c') ?rs = []"
  proof (rule ccontr)
    assume "filter (\<lambda>r. chapter_no r = c') ?rs \<noteq> []"
    then obtain r where "r \<in> set ?rs" "chapter_no r = c'"
      by (auto simp: filter_empty_conv)
    with le [of r] c' show False by simp
  qed
  then show ?thesis
    by (simp add: get_max_verse_def max_verse_loop_0 [OF wf])
qed

lemma resolve_1: "get_book_data (PInt 1) = Some (PStr ''Matthew'', ''Mt'', ''Matt'')"
  by (simp add: table_defs)

lemma resolve_4: "get_book_data (PInt 4) = Some (PStr ''John'', ''Jn'', ''John'')"
  by (simp add: table_defs)

lemma navigate_verse_resolved_PInt:
  "get_book_data (PInt i) = Some d \<Longrightarrow>
   navigate_verse morphgnt_rows (PInt i) c v mode = Inl Book_not_found"
  by (auto simp: navigate_verse_PInt get_book_data.simps split: option.splits)

section \<open>The claims\<close>

text \<open>
  The rule of \<open>next_verse\<close> for a book given by a string. When the identifier (short
  name, abbreviation or KJV abbreviation) resolves to the book number \<open>n\<close> and the
  scans return \<open>max_verse\<close> and \<open>max_chapter\<close>, the result is the next verse of the
  chapter if \<open>verse < max_verse\<close>; otherwise verse 1 of the next chapter if
  \<open>chapter < max_chapter\<close>; otherwise chapter 1, verse 1 of the next book in canonical
  order if there is one (\<open>n < 27\<close>); otherwise the input address. The book of the result
  is its short name in the registry.
\<close>

theorem next_verse_rule:
  assumes "get_book_data (PStr s) = Some (PInt n, a, k)"
    and "get_max_verse morphgnt_rows n c = Inr max_verse"
    and "get_max_chapter morphgnt_rows n = Inr max_chapter"
  shows "navigate_verse morphgnt_rows (PStr s) c v ''next_verse'' =
     Inr (if v < max_verse then (full_name n, c, v + 1)
          else if c < max_chapter then (full_name n, c + 1, 1)
          else if n < 27 then (full_name (n + 1), 1, 1)
          else (full_name n, c, v))"
  by (simp add: nav_next_verse [OF assms(1)] assms(2,3))

text \<open>
  The scenario of the specification on the sample store: from the last verse of Matthew 1
  the next verse is Matthew 2:1.
\<close>

theorem next_verse_rule_witness:
  "get_book_data (PStr ''Matthew'') = Some (PInt 1, ''Mt'', ''Matt'')
   \<and> get_max_verse sample_rows 1 1 = Inr 2
   \<and> get_max_chapter sample_rows 1 = Inr 2
   \<and> navigate_verse sample_rows (PStr ''Matthew'') 1 2 ''next_verse'' = Inr (''Matthew'', 2, 1)"
  using next_verse_rule [OF resolve_Matthew sample_Matthew(2) sample_Matthew(1), of 2]
  by (simp add: resolve_Matthew sample_Matthew full_name_1)

text \<open>
  C1. The rule of \<open>next_verse\<close> is claimed for every address whose book resolves in
  the registry. An integer position resolves too, and there the code does not follow the
  rule: with Matthew 1 ending at verse 2, \<open>next_verse\<close> from position 1, chapter 1,
  verse 2 raises "Book not found", where the rule gives Matthew 2:1, which the name
  \<open>Matthew\<close> does return.
\<close>

theorem next_verse_integer_position:
  "get_book_data (PInt 1) = Some (PStr ''Matthew'', ''Mt'', ''Matt'')
   \<and> get_max_verse sample_rows 1 1 = Inr 2
   \<and> get_max_chapter sample_rows 1 = Inr 2
   \<and> navigate_verse sample_rows (PInt 1) 1 2 ''next_verse'' = Inl Book_not_found
   \<and> navigate_verse sample_rows (PStr ''Matthew'') 1 2 ''next_verse'' = Inr (''Matthew'', 2, 1)"
  by (simp add: resolve_1 navigate_verse_resolved_PInt [OF resolve_1] sample_Matthew
        nav_next_verse [OF resolve_Matthew] full_name_1)

text \<open>
  C2 as stated (next, then previous, gives the address back for every valid address other
  than the very first verse) fails at the last verse of the collection: Revelation 22:21 is
  valid and is not the first verse; \<open>next_verse\<close> is clamped there and returns it, and
  \<open>previous_verse\<close> then moves to 22:20.
\<close>

theorem next_then_previous_counterexample:
  "get_book_data (PStr ''Revelation'') = Some (PInt 27, ''Rev'', ''Rev'')
   \<and> get_max_chapter sample_rows 27 = Inr 22
   \<and> get_max_verse sample_rows 27 22 = Inr 21
   \<and> navigate_verse sample_rows (PStr ''Revelation'') 22 21 ''next_verse'' = Inr (''Revelation'', 22, 21)
   \<and> navigate_verse sample_rows (PStr ''Revelation'') 22 21 ''previous_verse'' \<noteq> Inr (''Revelation'', 22, 21)"
  by (simp add: resolve_Revelation sample_Revelation nav_next_verse [OF resolve_Revelation]
        nav_previous_verse [OF resolve_Revelation] full_name_27)

text \<open>
  C2, amended. For every valid address that is not the very last verse of the collection,
  \<open>next_verse\<close> followed by \<open>previous_verse\<close> returns the address (its book as the
  registry's short name). Valid: the scans of the book succeed, the chapter is between 1
  and the book's last chapter, the verse between 1 and the chapter's last verse.
\<close>

theorem next_then_previous:
  assumes res: "get_book_data (PStr s) = Some (PInt n, a, k)"
    and mc: "get_max_chapter morphgnt_rows n = Inr max_chapter"
    and mv: "get_max_verse morphgnt_rows n c = Inr max_verse"
    and c: "1 \<le> c" "c \<le> max_chapter"
    and v: "1 \<le> v" "v \<le> max_verse"
    and not_last: "\<not> (n = 27 \<and> c = max_chapter \<and> v = max_verse)"
  shows "\<exists>b' c' v'. navigate_verse morphgnt_rows (PStr s) c v ''next_verse'' = Inr (b', c', v')
           \<and> navigate_verse morphgnt_rows (PStr b') c' v' ''previous_verse'' = Inr (full_name n, c, v)"
proof -
  from get_book_data_PStr_range [OF res] have n: "1 \<le> n" "n \<le> 27" by simp_all
  from get_book_data_full_name [OF n] obtain a' k'
    where same: "get_book_data (PStr (full_name n)) = Some (PInt n, a', k')" by blast
  consider "v < max_verse" | "v = max_verse" "c < max_chapter"
    | "v = max_verse" "c = max_chapter" "n < 27"
    using c v n not_last by force
  then show ?thesis
  proof cases
    case 1
    then have "navigate_verse morphgnt_rows (PStr s) c v ''next_verse'' = Inr (full_name n, c, v + 1)"
      by (simp add: nav_next_verse [OF res] mv)
    moreover have "navigate_verse morphgnt_rows (PStr (full_name n)) c (v + 1) ''previous_verse'' =
        Inr (full_name n, c, v)"
      using v by (simp add: nav_previous_verse [OF same])
    ultimately show ?thesis by blast
  next
    case 2
    then have "navigate_verse morphgnt_rows (PStr s) c v ''next_verse'' = Inr (full_name n, c + 1, 1)"
      by (simp add: nav_next_verse [OF res] mv mc)
    moreover have "navigate_verse morphgnt_rows (PStr (full_name n)) (c + 1) 1 ''previous_verse'' =
        Inr (full_name n, c, v)"
      using c 2 by (simp add: nav_previous_verse [OF same] mv)
    ultimately show ?thesis by blast
  next
    case 3
    from n 3 have n1: "1 \<le> n + 1" "n + 1 \<le> 27" by simp_all
    from get_book_data_full_name [OF n1] obtain a'' k''
      where succ: "get_book_data (PStr (full_name (n + 1))) = Some (PInt (n + 1), a'', k'')" by blast
    from 3 mv mc have "navigate_verse morphgnt_rows (PStr s) c v ''next_verse'' = Inr (full_name (n + 1), 1, 1)"
      by (simp add: nav_next_verse [OF res])
    moreover have "navigate_verse morphgnt_rows (PStr (full_name (n + 1))) 1 1 ''previous_verse'' =
        Inr (full_name n, c, v)"
      using n 3 mv mc by (simp add: nav_previous_verse [OF succ])
    ultimately show ?thesis by blast
  qed
qed

text \<open>Across a book boundary on the sample store: Matthew 2:1, Mark 1:1 and back.\<close>

theorem next_then_previous_witness:
  "get_book_data (PStr ''Matthew'') = Some (PInt 1, ''Mt'', ''Matt'')
   \<and> get_max_chapter sample_rows 1 = Inr 2
   \<and> get_max_verse sample_rows 1 2 = Inr 1
   \<and> navigate_verse sample_rows (PStr ''Matthew'') 2 1 ''next_verse'' = Inr (''Mark'', 1, 1)
   \<and> navigate_verse sample_rows (PStr ''Mark'') 1 1 ''previous_verse'' = Inr (''Matthew'', 2, 1)"
proof -
  have nx: "navigate_verse sample_rows (PStr ''Matthew'') 2 1 ''next_verse'' = Inr (''Mark'', 1, 1)"
    by (simp add: nav_next_verse [OF resolve_Matthew] sample_Matthew full_name_2)
  from next_then_previous [OF resolve_Matthew sample_Matthew(1) sample_Matthew(3), of 1]
  have "\<exists>b' c' v'. navigate_verse sample_rows (PStr ''Matthew'') 2 1 ''next_verse'' = Inr (b', c', v')
           \<and> navigate_verse sample_rows (PStr b') c' v' ''previous_verse'' = Inr (full_name 1, 2, 1)"
    by simp
  with nx have "navigate_verse sample_rows (PStr ''Mark'') 1 1 ''previous_verse'' = Inr (''Matthew'', 2, 1)"
    by (simp add: full_name_1)
  with nx show ?thesis by (simp add: resolve_Matthew sample_Matthew)
qed

text \<open>
  C3 as stated (previous, then next, gives the address back for every valid address other
  than the very last verse) fails at the first verse of the collection: Matthew 1:1 is valid
  and is not the last verse; \<open>previous_verse\<close> is clamped there and returns it, and
  \<open>next_verse\<close> then moves to 1:2.
\<close>

theorem previous_then_next_counterexample:
  "get_book_data (PStr ''Matthew'') = Some (PInt 1, ''Mt'', ''Matt'')
   \<and> get_max_chapter sample_rows 1 = Inr 2
   \<and> get_max_verse sample_rows 1 1 = Inr 2
   \<and> navigate_verse sample_rows (PStr ''Matthew'') 1 1 ''previous_verse'' = Inr (''Matthew'', 1, 1)
   \<and> navigate_verse sample_rows (PStr ''Matthew'') 1 1 ''next_verse'' \<noteq> Inr (''Matthew'', 1, 1)"
  by (simp add: resolve_Matthew sample_Matthew nav_next_verse [OF resolve_Matthew]
        nav_previous_verse [OF resolve_Matthew] full_name_1)

text \<open>
  C3, amended. For every valid address that is not the very first verse of the collection,
  \<open>previous_verse\<close> followed by \<open>next_verse\<close> returns the address (its book as the
  registry's short name); at the first verse of a book, the rows of the previous book
  are to have digits in their slices.
\<close>

theorem previous_then_next:
  assumes res: "get_book_data (PStr s) = Some (PInt n, a, k)"
    and mc: "get_max_chapter morphgnt_rows n = Inr max_chapter"
    and mv: "get_max_verse morphgnt_rows n c = Inr max_verse"
    and c: "1 \<le> c" "c \<le> max_chapter"
    and v: "1 \<le> v" "v \<le> max_verse"
    and prev_wf: "1 < n \<Longrightarrow> c = 1 \<Longrightarrow> v = 1 \<Longrightarrow> list_all wf_row (morphgnt_rows (n - 1))"
    and not_first: "\<not> (n = 1 \<and> c = 1 \<and> v = 1)"
  shows "\<exists>b' c' v'. navigate_verse morphgnt_rows (PStr s) c v ''previous_verse'' = Inr (b', c', v')
           \<and> navigate_verse morphgnt_rows (PStr b') c' v' ''next_verse'' = Inr (full_name n, c, v)"
proof -
  from get_book_data_PStr_range [OF res] have n: "1 \<le> n" "n \<le> 27" by simp_all
  from get_book_data_full_name [OF n] obtain a' k'
    where same: "get_book_data (PStr (full_name n)) = Some (PInt n, a', k')" by blast
  consider "1 < v" | "v = 1" "1 < c" | "v = 1" "c = 1" "1 < n"
    using c v n not_first by force
  then show ?thesis
  proof cases
    case 1
    then have "navigate_verse morphgnt_rows (PStr s) c v ''previous_verse'' = Inr (full_name n, c, v - 1)"
      by (simp add: nav_previous_verse [OF res])
    moreover have "navigate_verse morphgnt_rows (PStr (full_name n)) c (v - 1) ''next_verse'' =
        Inr (full_name n, c, v)"
      using v by (simp add: nav_next_verse [OF same] mv)
    ultimately show ?thesis by blast
  next
    case 2
    from get_max_verse_any_chapter [OF mv] obtain pmv
      where pmv: "get_max_verse morphgnt_rows n (c - 1) = Inr pmv" by blast
    from 2 have "navigate_verse morphgnt_rows (PStr s) c v ''previous_verse'' = Inr (full_name n, c - 1, pmv)"
      by (simp add: nav_previous_verse [OF res] pmv)
    moreover have "navigate_verse morphgnt_rows (PStr (full_name n)) (c - 1) pmv ''next_verse'' =
        Inr (full_name n, c, v)"
      using c 2 by (simp add: nav_next_verse [OF same] pmv mc)
    ultimately show ?thesis by blast
  next
    case 3
    from n 3 have n1: "1 \<le> n - 1" "n - 1 \<le> 27" by simp_all
    from get_book_data_full_name [OF n1] obtain a'' k''
      where pred: "get_book_data (PStr (full_name (n - 1))) = Some (PInt (n - 1), a'', k'')" by blast
    from prev_wf [OF 3(3) 3(2) 3(1)] have wf: "list_all wf_row (morphgnt_rows (n - 1))" .
    from scans_succeed [of morphgnt_rows "n - 1"] wf obtain pmc
      where pmc: "get_max_chapter morphgnt_rows (n - 1) = Inr pmc" by blast
    from scans_succeed [of morphgnt_rows "n - 1" pmc] wf obtain pmv
      where pmv: "get_max_verse morphgnt_rows (n - 1) pmc = Inr pmv" by blast
    from 3 have "navigate_verse morphgnt_rows (PStr s) c v ''previous_verse'' =
        Inr (full_name (n - 1), pmc, pmv)"
      by (simp add: nav_previous_verse [OF res] pmc pmv)
    moreover have "navigate_verse morphgnt_rows (PStr (full_name (n - 1))) pmc pmv ''next_verse'' =
        Inr (full_name n, c, v)"
      using n 3 by (simp add: nav_next_verse [OF pred] pmc pmv)
    ultimately show ?thesis by blast
  qed
qed

text \<open>Across a book boundary on the sample store: Mark 1:1, Matthew 2:1 and back.\<close>

theorem previous_then_next_witness:
  "get_book_data (PStr ''Mark'') = Some (PInt 2, ''Mk'', ''Mark'')
   \<and> get_max_chapter sample_rows 2 = Inr 1
   \<and> get_max_verse sample_rows 2 1 = Inr 1
   \<and> list_all wf_row (sample_rows 1)
   \<and> navigate_verse sample_rows (PStr ''Mark'') 1 1 ''previous_verse'' = Inr (''Matthew'', 2, 1)
   \<and> navigate_verse sample_rows (PStr ''Matthew'') 2 1 ''next_verse'' = Inr (''Mark'', 1, 1)"
proof -
  have pv: "navigate_verse sample_rows (PStr ''Mark'') 1 1 ''previous_verse'' = Inr (''Matthew'', 2, 1)"
    by (simp add: nav_previous_verse [OF resolve_Mark] sample_Matthew full_name_1)
  from previous_then_next [OF resolve_Mark sample_Mark(1) sample_Mark(2), of 1] wf_sample_1
  have "\<exists>b' c' v'. navigate_verse sample_rows (PStr ''Mark'') 1 1 ''previous_verse'' = Inr (b', c', v')
           \<and> navigate_verse sample_rows (PStr b') c' v' ''next_verse'' = Inr (full_name 2, 1, 1)"
    by simp
  with pv have "navigate_verse sample_rows (PStr ''Matthew'') 2 1 ''next_verse'' = Inr (''Mark'', 1, 1)"
    by (simp add: full_name_2)
  with pv show ?thesis by (simp add: resolve_Mark sample_Mark wf_sample_1)
qed

text \<open>
  The rule of \<open>start_of_chapter\<close> for a book given by a string that resolves: verse 1
  of the chapter when the verse is not 1; when the verse is 1, verse 1 of the previous
  chapter if \<open>chapter > 1\<close>, else verse 1 of the last chapter of the previous book if
  there is one, else the input address. From John 3:1 it returns John 2:1.
\<close>

theorem start_of_chapter_rule:
  assumes "get_book_data (PStr s) = Some (PInt n, a, k)"
  shows "navigate_verse morphgnt_rows (PStr s) c v ''start_of_chapter'' =
           (if v \<noteq> 1 then Inr (full_name n, c, 1)
            else if c > 1 then Inr (full_name n, c - 1, 1)
            else if n > 1 then
              (case get_max_chapter morphgnt_rows (n - 1) of
                 Inl e \<Rightarrow> Inl e
               | Inr last_chapter \<Rightarrow> Inr (full_name (n - 1), last_chapter, 1))
            else Inr (full_name n, c, v))
         \<and> navigate_verse morphgnt_rows (PStr ''John'') 3 1 ''start_of_chapter'' = Inr (''John'', 2, 1)"
  by (simp add: nav_start_of_chapter [OF assms] nav_start_of_chapter [OF resolve_John] full_name_4)

text \<open>On the sample store, rewinding from Mark 1:1 reaches Matthew 2:1.\<close>

theorem start_of_chapter_rule_witness:
  "get_book_data (PStr ''Mark'') = Some (PInt 2, ''Mk'', ''Mark'')
   \<and> navigate_verse sample_rows (PStr ''Mark'') 1 1 ''start_of_chapter'' = Inr (''Matthew'', 2, 1)
   \<and> navigate_verse sample_rows (PStr ''John'') 3 1 ''start_of_chapter'' = Inr (''John'', 2, 1)"
  using start_of_chapter_rule [OF resolve_Mark, of sample_rows 1 1]
  by (simp add: resolve_Mark sample_Matthew full_name_1)

text \<open>
  C4. The rule of \<open>start_of_chapter\<close> is claimed for every address whose book
  resolves, and in particular from John 3:1. An integer position resolves too, and there
  the code does not follow the rule: from position 4 (John), chapter 3, verse 1 it raises
  "Book not found", where the rule gives John 2:1, which the name \<open>John\<close> does
  return.
\<close>

theorem start_of_chapter_integer_position:
  "get_book_data (PInt 4) = Some (PStr ''John'', ''Jn'', ''John'')
   \<and> navigate_verse sample_rows (PInt 4) 3 1 ''start_of_chapter'' = Inl Book_not_found
   \<and> navigate_verse sample_rows (PStr ''John'') 3 1 ''start_of_chapter'' = Inr (''John'', 2, 1)"
  by (simp add: resolve_4 navigate_verse_resolved_PInt [OF resolve_4]
        nav_start_of_chapter [OF resolve_John] full_name_4)

text \<open>
  C5. \<open>previous_verse\<close> at the first verse of the first book and \<open>next_verse\<close> at the
  last verse of the last book return the input address, and the book of every navigation
  result resolves to a position between 1 and 27.
\<close>

theorem clamped_at_both_ends:
  "navigate_verse morphgnt_rows (PStr ''Matthew'') 1 1 ''previous_verse'' = Inr (''Matthew'', 1, 1)
   \<and> (get_max_chapter morphgnt_rows 27 = Inr last_chapter \<longrightarrow>
      get_max_verse morphgnt_rows 27 last_chapter = Inr last_verse \<longrightarrow>
      navigate_verse morphgnt_rows (PStr ''Revelation'') last_chapter last_verse ''next_verse'' =
        Inr (''Revelation'', last_chapter, last_verse))
   \<and> (navigate_verse morphgnt_rows ident c v mode = Inr (b', c', v') \<longrightarrow>
      (\<exists>p a k. get_book_data (PStr b') = Some (PInt p, a, k) \<and> 1 \<le> p \<and> p \<le> 27))"
proof (intro conjI impI)
  show "navigate_verse morphgnt_rows (PStr ''Matthew'') 1 1 ''previous_verse'' = Inr (''Matthew'', 1, 1)"
    by (simp add: nav_previous_verse [OF resolve_Matthew] full_name_1)
next
  assume "get_max_chapter morphgnt_rows 27 = Inr last_chapter"
    and "get_max_verse morphgnt_rows 27 last_chapter = Inr last_verse"
  then show "navigate_verse morphgnt_rows (PStr ''Revelation'') last_chapter last_verse ''next_verse'' =
        Inr (''Revelation'', last_chapter, last_verse)"
    by (simp add: nav_next_verse [OF resolve_Revelation] full_name_27)
next
  assume "navigate_verse morphgnt_rows ident c v mode = Inr (b', c', v')"
  from nav_result_book [OF this] obtain p where p: "1 \<le> p" "p \<le> 27" "b' = full_name p"
    by blast
  with get_book_data_full_name [of p]
  show "\<exists>p a k. get_book_data (PStr b') = Some (PInt p, a, k) \<and> 1 \<le> p \<and> p \<le> 27"
    by blast
qed

text \<open>
  On the sample store: the clamp at Revelation 22:21 and at Matthew 1:1, and a result
  (Matthew 2:1, reached from Mark 1:1) whose book has position 1.
\<close>

theorem clamped_at_both_ends_witness:
  "get_max_chapter sample_rows 27 = Inr 22
   \<and> get_max_verse sample_rows 27 22 = Inr 21
   \<and> navigate_verse sample_rows (PStr ''Revelation'') 22 21 ''next_verse'' = Inr (''Revelation'', 22, 21)
   \<and> navigate_verse sample_rows (PStr ''Matthew'') 1 1 ''previous_verse'' = Inr (''Matthew'', 1, 1)
   \<and> navigate_verse sample_rows (PStr ''Mark'') 1 1 ''previous_verse'' = Inr (''Matthew'', 2, 1)
   \<and> get_book_data (PStr ''Matthew'') = Some (PInt 1, ''Mt'', ''Matt'')"
proof -
  have prev: "navigate_verse sample_rows (PStr ''Mark'') 1 1 ''previous_verse'' = Inr (''Matthew'', 2, 1)"
    by (simp add: nav_previous_verse [OF resolve_Mark] sample_Matthew full_name_1)
  from clamped_at_both_ends [of sample_rows 22 21 "PStr ''Mark''" 1 1 "''previous_verse''" "''Matthew''" 2 1]
  show ?thesis
    using prev by (simp add: sample_Revelation resolve_Matthew)
qed

text \<open>
  C6. The claim is that an integer position between 1 and 27 navigates like the book's
  name. The code does not: position 1 resolves in the registry, to a tuple whose first
  component is the name \<open>Matthew\<close>; the index search compares the book numbers with
  that name, finds nothing, and \<open>navigate_verse\<close> raises "Book not found", where the
  name \<open>Matthew\<close> navigates to Matthew 1:2.
\<close>

theorem integer_book_fails:
  "get_book_data (PInt 1) = Some (PStr ''Matthew'', ''Mt'', ''Matt'')
   \<and> navigate_verse sample_rows (PInt 1) 1 1 ''next_verse'' = Inl Book_not_found
   \<and> navigate_verse sample_rows (PStr ''Matthew'') 1 1 ''next_verse'' = Inr (''Matthew'', 1, 2)"
proof -
  have "get_book_data (PInt 1) = Some (PStr ''Matthew'', ''Mt'', ''Matt'')"
    by (simp add: table_defs)
  moreover from this have "navigate_verse sample_rows (PInt 1) 1 1 ''next_verse'' = Inl Book_not_found"
    by (simp add: navigate_verse_def book_idx_loop_PStr)
  moreover have "navigate_verse sample_rows (PStr ''Matthew'') 1 1 ''next_verse'' = Inr (''Matthew'', 1, 2)"
    by (simp add: nav_next_verse [OF resolve_Matthew] sample_Matthew full_name_1)
  ultimately show ?thesis by simp
qed

text \<open>
  C7 as stated (with an empty extent every directive returns the input address) fails:
  in the sample store Luke resolves and has no rows, so both scans return 0, and
  \<open>next_verse\<close> from Luke 1:1 moves to John 1:1.
\<close>

theorem empty_extent_counterexample:
  "get_book_data (PStr ''Luke'') = Some (PInt 3, ''Lk'', ''Luke'')
   \<and> get_max_chapter sample_rows 3 = Inr 0
   \<and> get_max_verse sample_rows 3 1 = Inr 0
   \<and> navigate_verse sample_rows (PStr ''Luke'') 1 1 ''next_verse'' = Inr (''John'', 1, 1)
   \<and> navigate_verse sample_rows (PStr ''Luke'') 1 1 ''next_verse'' \<noteq> Inr (''Luke'', 1, 1)"
  by (simp add: resolve_Luke sample_Luke nav_next_verse [OF resolve_Luke] full_name_4)

text \<open>
  C7, amended. For an address (chapter and verse at least 1) whose book, given by a
  string, resolves and whose two scans return 0:
  \<^item> \<open>next_verse\<close> and \<open>start_of_next_chapter\<close> return chapter 1, verse 1 of the
    next book if there is one, and the input address in the last book;
  \<^item> \<open>previous_verse\<close> returns the previous verse if the verse is above 1; else verse
    0 of the previous chapter if the chapter is above 1; else, if there is a previous
    book, the last verse of its last chapter, or the error of the scan of that book when
    one of its rows does not parse; else (first book) the input address;
  \<^item> \<open>start_of_chapter\<close> returns verse 1 of the chapter if the verse is not 1; else
    verse 1 of the previous chapter if the chapter is above 1; else, if there is a
    previous book, verse 1 of its last chapter, or the error of the scan of that book;
    else (first book) the input address.
\<close>

theorem empty_extent_rule:
  assumes "get_book_data (PStr s) = Some (PInt n, a, k)"
    and "get_max_chapter morphgnt_rows n = Inr 0"
    and "get_max_verse morphgnt_rows n c = Inr 0"
    and "1 \<le> c" and "1 \<le> v"
  shows "navigate_verse morphgnt_rows (PStr s) c v ''next_verse'' =
           Inr (if n < 27 then (full_name (n + 1), 1, 1) else (full_name n, c, v))
       \<and> navigate_verse morphgnt_rows (PStr s) c v ''start_of_next_chapter'' =
           Inr (if n < 27 then (full_name (n + 1), 1, 1) else (full_name n, c, v))
       \<and> navigate_verse morphgnt_rows (PStr s) c v ''previous_verse'' =
           (if 1 < v then Inr (full_name n, c, v - 1)
            else if 1 < c then Inr (full_name n, c - 1, 0)
            else if 1 < n then
              (case get_max_chapter morphgnt_rows (n - 1) of
                 Inl e \<Rightarrow> Inl e
               | Inr last_chapter \<Rightarrow>
                   (case get_max_verse morphgnt_rows (n - 1) last_chapter of
                      Inl e \<Rightarrow> Inl e
                    | Inr last_verse \<Rightarrow> Inr (full_name (n - 1), last_chapter, last_verse)))
            else Inr (full_name n, c, v))
       \<and> navigate_verse morphgnt_rows (PStr s) c v ''start_of_chapter'' =
           (if v \<noteq> 1 then Inr (full_name n, c, 1)
            else if 1 < c then Inr (full_name n, c - 1, 1)
            else if 1 < n then
              (case get_max_chapter morphgnt_rows (n - 1) of
                 Inl e \<Rightarrow> Inl e
               | Inr last_chapter \<Rightarrow> Inr (full_name (n - 1), last_chapter, 1))
            else Inr (full_name n, c, v))"
proof (intro conjI)
  show "navigate_verse morphgnt_rows (PStr s) c v ''next_verse'' =
           Inr (if n < 27 then (full_name (n + 1), 1, 1) else (full_name n, c, v))"
    using assms(2-5) by (simp add: nav_next_verse [OF assms(1)])
  show "navigate_verse morphgnt_rows (PStr s) c v ''start_of_next_chapter'' =
           Inr (if n < 27 then (full_name (n + 1), 1, 1) else (full_name n, c, v))"
    using assms(2-5) by (simp add: nav_start_of_next_chapter [OF assms(1)])
  have prev: "get_max_verse morphgnt_rows n (c - 1) = Inr 0" if "1 < c"
    using that by (intro empty_book_other_chapter [OF assms(2) assms(3)]) simp
  show "navigate_verse morphgnt_rows (PStr s) c v ''previous_verse'' =
           (if 1 < v then Inr (full_name n, c, v - 1)
            else if 1 < c then Inr (full_name n, c - 1, 0)
            else if 1 < n then
              (case get_max_chapter morphgnt_rows (n - 1) of
                 Inl e \<Rightarrow> Inl e
               | Inr last_chapter \<Rightarrow>
                   (case get_max_verse morphgnt_rows (n - 1) last_chapter of
                      Inl e \<Rightarrow> Inl e
                    | Inr last_verse \<Rightarrow> Inr (full_name (n - 1), last_chapter, last_verse)))
            else Inr (full_name n, c, v))"
    using prev by (simp add: nav_previous_verse [OF assms(1)])
  show "navigate_verse morphgnt_rows (PStr s) c v ''start_of_chapter'' =
           (if v \<noteq> 1 then Inr (full_name n, c, 1)
            else if 1 < c then Inr (full_name n, c - 1, 1)
            else if 1 < n then
              (case get_max_chapter morphgnt_rows (n - 1) of
                 Inl e \<Rightarrow> Inl e
               | Inr last_chapter \<Rightarrow> Inr (full_name (n - 1), last_chapter, 1))
            else Inr (full_name n, c, v))"
    by (simp add: nav_start_of_chapter [OF assms(1)])
qed

text \<open>
  The four directives from Luke 1:1 on the sample store, where Luke has no rows: each of
  them moves to another book.
\<close>

theorem empty_extent_rule_witness:
  "get_book_data (PStr ''Luke'') = Some (PInt 3, ''Lk'', ''Luke'')
   \<and> get_max_chapter sample_rows 3 = Inr 0
   \<and> get_max_verse sample_rows 3 1 = Inr 0
   \<and> navigate_verse sample_rows (PStr ''Luke'') 1 1 ''next_verse'' = Inr (''John'', 1, 1)
   \<and> navigate_verse sample_rows (PStr ''Luke'') 1 1 ''start_of_next_chapter'' = Inr (''John'', 1, 1)
   \<and> navigate_verse sample_rows (PStr ''Luke'') 1 1 ''previous_verse'' = Inr (''Mark'', 1, 1)
   \<and> navigate_verse sample_rows (PStr ''Luke'') 1 1 ''start_of_chapter'' = Inr (''Mark'', 1, 1)"
  using empty_extent_rule [OF resolve_Luke sample_Luke(1) sample_Luke(2), of 1]
  by (simp add: resolve_Luke sample_Luke sample_Mark full_name_2 full_name_4)

text \<open>
  C8. On rows whose slices are digits, \<open>get_max_chapter\<close> returns the largest chapter
  number among the rows of the book, and 0 when there are none; \<open>get_max_verse\<close>
  returns the largest verse number among the rows of the given chapter, and 0 when there
  are none; both return the same for any other store with the same multiset of rows.
\<close>

theorem extent_scans:
  assumes "list_all wf_row (morphgnt_rows book_num)"
  shows "get_max_chapter morphgnt_rows book_num =
           Inr (if morphgnt_rows book_num = [] then 0
                else Max (set (map chapter_no (morphgnt_rows book_num))))
       \<and> get_max_verse morphgnt_rows book_num chapter =
           Inr (if filter (\<lambda>r. chapter_no r = chapter) (morphgnt_rows book_num) = [] then 0
                else Max (set (map verse_no
                       (filter (\<lambda>r. chapter_no r = chapter) (morphgnt_rows book_num)))))
       \<and> (\<forall>other. mset (other book_num) = mset (morphgnt_rows book_num) \<longrightarrow>
             get_max_chapter other book_num = get_max_chapter morphgnt_rows book_num
           \<and> get_max_verse other book_num chapter = get_max_verse morphgnt_rows book_num chapter)"
  using assms
  by (simp add: get_max_chapter_def get_max_verse_def max_chapter_loop_0 max_verse_loop_0
        max_chapter_loop_mset max_verse_loop_mset)

text \<open>The rows of Matthew in the sample store, out of order and in order.\<close>

theorem extent_scans_witness:
  "list_all wf_row (sample_rows 1)
   \<and> get_max_chapter sample_rows 1 = Inr 2
   \<and> get_max_verse sample_rows 1 1 = Inr 2
   \<and> mset (sorted_rows 1) = mset (sample_rows 1)
   \<and> get_max_chapter sorted_rows 1 = Inr 2
   \<and> get_max_verse sorted_rows 1 1 = Inr 2"
proof -
  have m: "mset (sorted_rows 1) = mset (sample_rows 1)"
    by (simp add: sorted_rows_def sample_rows_def mk_row_def)
  from extent_scans [of sample_rows 1 1] wf_sample_1 m
  have "get_max_chapter sorted_rows 1 = get_max_chapter sample_rows 1"
    and "get_max_verse sorted_rows 1 1 = get_max_verse sample_rows 1 1"
    by blast+
  with m wf_sample_1 show ?thesis by (simp add: sample_Matthew)
qed

text \<open>
  C9. The book of every result of \<open>navigate_verse\<close> is a short name of the registry;
  the result does not depend on the spelling of the book (short name, abbreviation or KJV
  abbreviation); and the clamp branches at both ends return the short name, not the
  identifier they were given.
\<close>

theorem result_book_is_full_name:
  "(navigate_verse morphgnt_rows ident c v mode = Inr (b', c', v') \<longrightarrow>
      b' \<in> set (map book1 NEW_TESTAMENT))
   \<and> (get_book_data (PStr s) = Some (PInt n, a, k) \<longrightarrow>
        navigate_verse morphgnt_rows (PStr s) c v mode =
        navigate_verse morphgnt_rows (PStr (full_name n)) c v mode
      \<and> (n = 1 \<longrightarrow>
           navigate_verse morphgnt_rows (PStr s) 1 1 ''previous_verse'' = Inr (''Matthew'', 1, 1))
      \<and> (n = 27 \<longrightarrow> get_max_chapter morphgnt_rows 27 = Inr last_chapter \<longrightarrow>
           get_max_verse morphgnt_rows 27 last_chapter = Inr last_verse \<longrightarrow>
           navigate_verse morphgnt_rows (PStr s) last_chapter last_verse ''next_verse'' =
             Inr (''Revelation'', last_chapter, last_verse)))"
proof (intro conjI impI)
  assume "navigate_verse morphgnt_rows ident c v mode = Inr (b', c', v')"
  from nav_result_book [OF this] show "b' \<in> set (map book1 NEW_TESTAMENT)"
    using full_name_in_registry by blast
next
  assume res: "get_book_data (PStr s) = Some (PInt n, a, k)"
  from get_book_data_PStr_range [OF res] have n: "1 \<le> n" "n \<le> 27" by simp_all
  from get_book_data_full_name [OF n] obtain a' k'
    where res': "get_book_data (PStr (full_name n)) = Some (PInt n, a', k')" by blast
  show "navigate_verse morphgnt_rows (PStr s) c v mode =
        navigate_verse morphgnt_rows (PStr (full_name n)) c v mode"
    by (simp only: navigate_verse_PStr [OF res] navigate_verse_PStr [OF res'])
next
  assume res: "get_book_data (PStr s) = Some (PInt n, a, k)" and "n = 1"
  then show "navigate_verse morphgnt_rows (PStr s) 1 1 ''previous_verse'' = Inr (''Matthew'', 1, 1)"
    by (simp add: nav_previous_verse [OF res] full_name_1)
next
  assume res: "get_book_data (PStr s) = Some (PInt n, a, k)" and "n = 27"
    and "get_max_chapter morphgnt_rows 27 = Inr last_chapter"
    and "get_max_verse morphgnt_rows 27 last_chapter = Inr last_verse"
  then show "navigate_verse morphgnt_rows (PStr s) last_chapter last_verse ''next_verse'' =
             Inr (''Revelation'', last_chapter, last_verse)"
    by (simp add: nav_next_verse [OF res] full_name_27)
qed

text \<open>
  At both ends of the sample store, with the abbreviations \<open>Rev\<close> and \<open>Mt\<close>.
\<close>

theorem result_book_is_full_name_witness:
  "get_book_data (PStr ''Rev'') = Some (PInt 27, ''Revelation'', ''Rev'')
   \<and> get_max_chapter sample_rows 27 = Inr 22
   \<and> get_max_verse sample_rows 27 22 = Inr 21
   \<and> navigate_verse sample_rows (PStr ''Rev'') 22 21 ''next_verse'' = Inr (''Revelation'', 22, 21)
   \<and> ''Revelation'' \<in> set (map book1 NEW_TESTAMENT)
   \<and> get_book_data (PStr ''Mt'') = Some (PInt 1, ''Matthew'', ''Matt'')
   \<and> navigate_verse sample_rows (PStr ''Mt'') 1 1 ''previous_verse'' = Inr (''Matthew'', 1, 1)"
proof -
  from result_book_is_full_name
    [of sample_rows "PStr ''Rev''" 22 21 "''next_verse''" "''Revelation''" 22 21
        "''Rev''" 27 "''Revelation''" "''Rev''" 22 21]
  have last: "navigate_verse sample_rows (PStr ''Rev'') 22 21 ''next_verse'' = Inr (''Revelation'', 22, 21)
      \<and> ''Revelation'' \<in> set (map book1 NEW_TESTAMENT)"
    by (auto simp add: resolve_Rev sample_Revelation)
  from result_book_is_full_name
    [of sample_rows "PStr ''Mt''" 1 1 "''previous_verse''" "''Matthew''" 1 1
        "''Mt''" 1 "''Matthew''" "''Matt''" 1 1]
  have first: "navigate_verse sample_rows (PStr ''Mt'') 1 1 ''previous_verse'' = Inr (''Matthew'', 1, 1)"
    by (auto simp add: resolve_Mt)
  from last first show ?thesis
    by (simp add: resolve_Rev resolve_Mt sample_Revelation)
qed

text \<open>
  C10. \<open>save_user_translation\<close> writes a file in which the entry of
  \<open>(book, chapter, verse)\<close> is the text, every other entry is as it was before (for all
  keys of the file, and so for all other addresses), and no entry is removed; the file,
  the book and the chapter are created when missing.
\<close>

theorem save_user_translation_frame:
  "(\<exists>d. save_user_translation file book chapter verse text = Some d
      \<and> get_entry d book (py_str chapter) (py_str verse) = Some text
      \<and> (\<forall>b ck vk. (b, ck, vk) \<noteq> (book, py_str chapter, py_str verse) \<longrightarrow>
            get_entry d b ck vk = get_entry (load_user_translations file) b ck vk)
      \<and> (\<forall>b ck vk. get_entry (load_user_translations file) b ck vk \<noteq> None \<longrightarrow>
            get_entry d b ck vk \<noteq> None))
   \<and> load_user_translation (save_user_translation file book chapter verse text)
        book chapter verse = Some text
   \<and> ((book', chapter', verse') \<noteq> (book, chapter, verse) \<longrightarrow>
        load_user_translation (save_user_translation file book chapter verse text)
          book' chapter' verse' =
        load_user_translation file book' chapter' verse')"
proof -
  obtain d where d: "save_user_translation file book chapter verse text = Some d"
    by (simp add: save_user_translation_def Let_def)
  note entry = get_entry_save [OF d]
  have ld: "load_user_translations (Some d) = d"
    by (simp add: load_user_translations_def)
  have written: "get_entry d book (py_str chapter) (py_str verse) = Some text"
    by (simp add: entry)
  have frame: "get_entry d b ck vk = get_entry (load_user_translations file) b ck vk"
    if "(b, ck, vk) \<noteq> (book, py_str chapter, py_str verse)" for b ck vk
    using that by (auto simp add: entry)
  have kept: "get_entry d b ck vk \<noteq> None"
    if "get_entry (load_user_translations file) b ck vk \<noteq> None" for b ck vk
    using that by (auto simp add: entry)
  have loaded: "load_user_translation (Some d) book chapter verse = Some text"
    by (simp add: load_user_translation_eq ld written)
  have other: "load_user_translation (Some d) book' chapter' verse' =
      load_user_translation file book' chapter' verse'"
    if ne: "(book', chapter', verse') \<noteq> (book, chapter, verse)"
  proof -
    from ne have "(book', py_str chapter', py_str verse') \<noteq> (book, py_str chapter, py_str verse)"
      by (auto dest: py_str_inj)
    from frame [OF this] show ?thesis
      by (simp add: load_user_translation_eq ld)
  qed
  from written frame kept loaded other show ?thesis
    by (simp only: d) blast
qed

text \<open>A second entry written after a first one: both are read back.\<close>

theorem save_user_translation_frame_witness:
  "(''John'', 3, 17) \<noteq> (''John'', 3, (16::int))
   \<and> load_user_translation one_entry ''John'' 3 16 = Some ''For God so loved''
   \<and> load_user_translation (save_user_translation one_entry ''John'' 3 17 ''sent'')
       ''John'' 3 17 = Some ''sent''
   \<and> load_user_translation (save_user_translation one_entry ''John'' 3 17 ''sent'')
       ''John'' 3 16 = Some ''For God so loved''"
proof -
  have one: "load_user_translation one_entry ''John'' 3 16 = Some ''For God so loved''"
    by (simp add: one_entry_def load_user_translation_def save_user_translation_def
          load_user_translations_def setdefault_def get_entry_def py_str_small)
  from save_user_translation_frame
         [of one_entry "''John''" 3 17 "''sent''" "''John''" 3 16]
  show ?thesis using one by simp
qed

end
